theory Spec2Isabelle
  imports Main "HOL-Library.Word" "HOL-Library.Multiset"
begin

unbundle bit_operations_syntax

section \<open>Package consistenthash (consistenthash/consistenthash.go)\<close>

text \<open>
  Go strings and byte slices are sequences of 8-bit bytes; both are modelled as
  \<^typ>\<open>string\<close>, whose characters are exactly the 256 byte values. A \<open>Hash\<close> maps a
  byte sequence to a \<open>uint32\<close>. The ring stores the hashes as Go \<open>int\<close>s; on the
  64-bit platforms the library targets, \<open>int(h)\<close> of a \<open>uint32\<close> is its unsigned
  value, \<^term>\<open>uint h\<close>.
\<close>

type_synonym Hash = "string \<Rightarrow> 32 word"

record Map =
  hash :: Hash
  replicas :: int
  keys :: "int list"
  hashMap :: "int \<rightharpoonup> string"

subsection \<open>Standard-library functions the package calls\<close>

text \<open>\<open>crc32.ChecksumIEEE\<close>: the reflected CRC-32 with polynomial \<open>0xEDB88320\<close>.\<close>

definition crc_step :: "32 word \<Rightarrow> 32 word" where
  "crc_step c = (if bit c 0 then drop_bit 1 c XOR 0xEDB88320 else drop_bit 1 c)"

definition crc_byte :: "32 word \<Rightarrow> char \<Rightarrow> 32 word" where
  "crc_byte c b = (crc_step ^^ 8) (c XOR of_nat (of_char b))"

definition ChecksumIEEE :: Hash where
  "ChecksumIEEE data = NOT (foldl crc_byte (NOT 0) data)"

text \<open>\<open>strconv.Itoa\<close>: the decimal representation of an \<open>int\<close>.\<close>

fun digits :: "nat \<Rightarrow> string" where
  "digits n = (if n < 10 then [char_of (48 + n)]
               else digits (n div 10) @ [char_of (48 + n mod 10)])"

declare digits.simps [simp del]

definition Itoa :: "int \<Rightarrow> string" where
  "Itoa i = (if i < 0 then CHR ''-'' # digits (nat (- i)) else digits (nat i))"

text \<open>
  \<open>sort.Search(n, f)\<close>: the binary search of package \<open>sort\<close>,
  \<^verbatim>\<open>i, j := 0, n; for i < j { h := int(uint(i+j) >> 1); if !f(h) { i = h + 1 } else { j = h } }; return i\<close>.
\<close>

function SearchLoop :: "(nat \<Rightarrow> bool) \<Rightarrow> nat \<Rightarrow> nat \<Rightarrow> nat" where
  "SearchLoop f i j =
     (if i < j then
        (let h = (i + j) div 2 in
         if \<not> f h then SearchLoop f (h + 1) j else SearchLoop f i h)
      else i)"
  by pat_completeness auto
termination
  by (relation "measure (\<lambda>(f, i, j). j - i)") auto

declare SearchLoop.simps [simp del]

definition Search :: "nat \<Rightarrow> (nat \<Rightarrow> bool) \<Rightarrow> nat" where
  "Search n f = SearchLoop f 0 n"

text \<open>\<open>sort.Ints\<close> sorts ascending; on integers every sorting algorithm returns the
  same list, here \<^const>\<open>sort\<close>.\<close>

subsection \<open>New, IsEmpty, Add, Get\<close>

definition New :: "int \<Rightarrow> Hash option \<Rightarrow> Map" where
  "New r fn =
     \<lparr>hash = (case fn of None \<Rightarrow> ChecksumIEEE | Some f \<Rightarrow> f),
      replicas = r, keys = [], hashMap = Map.empty\<rparr>"

definition IsEmpty :: "Map \<Rightarrow> bool" where
  "IsEmpty m = (length (keys m) = 0)"

text \<open>The body of the inner loop of \<open>Add\<close>, for virtual node \<open>i\<close> of peer \<open>key\<close>.\<close>

definition add_replica :: "string \<Rightarrow> Map \<Rightarrow> nat \<Rightarrow> Map" where
  "add_replica key m i =
     (let h = uint (hash m (Itoa (int i) @ key))
      in m\<lparr>keys := keys m @ [h], hashMap := (hashMap m)(h \<mapsto> key)\<rparr>)"

text \<open>The inner loop \<open>for i := 0; i < m.replicas; i++\<close>.\<close>

definition add_key :: "Map \<Rightarrow> string \<Rightarrow> Map" where
  "add_key m key = foldl (add_replica key) m [0..<nat (replicas m)]"

definition Add :: "Map \<Rightarrow> string list \<Rightarrow> Map" where
  "Add m ks = (let m' = foldl add_key m ks in m'\<lparr>keys := sort (keys m')\<rparr>)"

text \<open>Reading a Go map at a missing key gives the zero value, the empty string.\<close>

definition lookup_peer :: "Map \<Rightarrow> int \<Rightarrow> string" where
  "lookup_peer m k = (case hashMap m k of None \<Rightarrow> [] | Some p \<Rightarrow> p)"

definition Get :: "Map \<Rightarrow> string \<Rightarrow> string" where
  "Get m key =
     (if IsEmpty m then []
      else
        (let h = uint (hash m key);
             idx = Search (length (keys m)) (\<lambda>i. keys m ! i \<ge> h);
             idx = (if idx = length (keys m) then 0 else idx)
         in lookup_peer m (keys m ! idx)))"

text \<open>The ring index that \<open>Get\<close> reads on a non-empty ring (its local \<open>idx\<close>).\<close>

definition Get_idx :: "Map \<Rightarrow> string \<Rightarrow> nat" where
  "Get_idx m key =
     (let idx = Search (length (keys m)) (\<lambda>i. keys m ! i \<ge> uint (hash m key))
      in if idx = length (keys m) then 0 else idx)"

text \<open>A ring as a program builds it: \<open>New\<close> followed by a sequence of \<open>Add\<close> calls.\<close>

definition ring :: "int \<Rightarrow> Hash option \<Rightarrow> string list list \<Rightarrow> Map" where
  "ring r fn adds = foldl Add (New r fn) adds"

text \<open>The virtual nodes of a list of peers, in insertion order: hash and owner.\<close>

definition vnodes :: "Hash \<Rightarrow> int \<Rightarrow> string list \<Rightarrow> (int \<times> string) list" where
  "vnodes hf r ps =
     concat (map (\<lambda>p. map (\<lambda>i. (uint (hf (Itoa (int i) @ p)), p)) [0..<nat r]) ps)"

text \<open>A hash function for examples: the sum of the bytes.\<close>

definition bytesum :: Hash where
  "bytesum data = of_nat (sum_list (map of_char data))"

section \<open>Package groupcache: peers (peers.go) and the HTTP pool (http.go)\<close>

text \<open>A Go panic, with its message.\<close>

datatype panic = Panic string

text \<open>
  The interface \<open>PeerPicker\<close>: the implementation \<open>NoPeers\<close> of peers.go, or any other
  implementation, given by a reference of type \<open>'p\<close> (for an \<open>HTTPPool\<close>, the pointer
  to the pool). A nil interface value is \<open>None\<close>.
\<close>

datatype 'p PeerPicker = NoPeers | Picker 'p

text \<open>The package-level variables \<open>portPicker\<close> (peers.go) and \<open>httpPoolMade\<close> (http.go).\<close>

record 'p globals =
  portPicker :: "(string \<Rightarrow> 'p PeerPicker option) option"
  httpPoolMade :: bool

definition init_globals :: "'p globals" where
  "init_globals = \<lparr>portPicker = None, httpPoolMade = False\<rparr>"

definition RegisterPeerPicker :: "(unit \<Rightarrow> 'p PeerPicker option) \<Rightarrow> 'p globals \<Rightarrow> panic + 'p globals" where
  "RegisterPeerPicker fn g =
     (if portPicker g \<noteq> None then Inl (Panic ''RegisterPeerPicker called more than once'')
      else Inr (g\<lparr>portPicker := Some (\<lambda>_. fn ())\<rparr>))"

definition RegisterPerGroupPeerPicker ::
    "(string \<Rightarrow> 'p PeerPicker option) option \<Rightarrow> 'p globals \<Rightarrow> panic + 'p globals" where
  "RegisterPerGroupPeerPicker fn g =
     (if portPicker g \<noteq> None then Inl (Panic ''RegisterPeerPicker called more than once'')
      else Inr (g\<lparr>portPicker := fn\<rparr>))"

definition getPeers :: "'p globals \<Rightarrow> string \<Rightarrow> 'p PeerPicker" where
  "getPeers g groupName =
     (case portPicker g of
        None \<Rightarrow> NoPeers
      | Some f \<Rightarrow> (case f groupName of None \<Rightarrow> NoPeers | Some pk \<Rightarrow> pk))"

text \<open>
  The method call \<open>pk.PickPeer(key)\<close> on an interface value: \<open>NoPeers.PickPeer\<close>
  returns its zero-valued results \<open>(nil, false)\<close>; any other implementation is
  dispatched to \<open>impl\<close>.
\<close>

definition PickPeer_of ::
    "('p \<Rightarrow> string \<Rightarrow> 'g option \<times> bool) \<Rightarrow> 'p PeerPicker \<Rightarrow> string \<Rightarrow> 'g option \<times> bool" where
  "PickPeer_of impl pk key = (case pk of NoPeers \<Rightarrow> (None, False) | Picker p \<Rightarrow> impl p key)"

subsection \<open>HTTPPool\<close>

definition defaultBasePath :: string where
  "defaultBasePath = ''/_groupcache/''"

definition defaultReplicas :: int where
  "defaultReplicas = 50"

record HTTPPoolOptions =
  BasePath :: string
  Replicas :: int
  HashFn :: "Hash option"

text \<open>\<open>'t\<close> is the type of the \<open>Transport\<close> function; a nil function is \<open>None\<close>.\<close>

record 't httpGetter =
  transport :: "'t option"
  baseURL :: string

record 't HTTPPool =
  Transport :: "'t option"
  self :: string
  opts :: HTTPPoolOptions
  peers :: Map
  httpGetters :: "string \<rightharpoonup> 't httpGetter"

text \<open>
  \<open>NewHTTPPoolOpts(self, o)\<close>, with \<open>ov\<close> for \<open>o\<close>; \<open>a\<close> is the pointer to the pool being allocated, which
  the registered picker function returns.
\<close>

definition NewHTTPPoolOpts ::
    "'p \<Rightarrow> string \<Rightarrow> HTTPPoolOptions option \<Rightarrow> 'p globals \<Rightarrow> panic + ('t HTTPPool \<times> 'p globals)" where
  "NewHTTPPoolOpts a slf ov g =
     (if httpPoolMade g then Inl (Panic ''groupcache: NewHTTPPool must be called only once'')
      else
        (let g1 = g\<lparr>httpPoolMade := True\<rparr>;
             o1 = (case ov of None \<Rightarrow> \<lparr>BasePath = [], Replicas = 0, HashFn = None\<rparr> | Some x \<Rightarrow> x);
             o2 = (if BasePath o1 = [] then o1\<lparr>BasePath := defaultBasePath\<rparr> else o1);
             o3 = (if Replicas o2 = 0 then o2\<lparr>Replicas := defaultReplicas\<rparr> else o2);
             p = \<lparr>Transport = None, self = slf, opts = o3,
                  peers = New (Replicas o3) (HashFn o3), httpGetters = Map.empty\<rparr>
         in case RegisterPeerPicker (\<lambda>_. Some (Picker a)) g1 of
              Inl e \<Rightarrow> Inl e
            | Inr g2 \<Rightarrow> Inr (p, g2)))"

definition Set :: "'t HTTPPool \<Rightarrow> string list \<Rightarrow> 't HTTPPool" where
  "Set p ps =
     p\<lparr>peers := Add (New (Replicas (opts p)) (HashFn (opts p))) ps,
       httpGetters :=
         foldl (\<lambda>g peer. g(peer \<mapsto> \<lparr>transport = Transport p, baseURL = peer @ BasePath (opts p)\<rparr>))
           Map.empty ps\<rparr>"

definition PickPeer :: "'t HTTPPool \<Rightarrow> string \<Rightarrow> 't httpGetter option \<times> bool" where
  "PickPeer p key =
     (if IsEmpty (peers p) then (None, False)
      else
        (let peer = Get (peers p) key
         in if peer \<noteq> self p then (httpGetters p peer, True) else (None, False)))"


text \<open>A pool for examples: this process is peer A; byte-sum hash, two replicas.\<close>

definition ex_pool :: "unit HTTPPool" where
  "ex_pool =
     \<lparr>Transport = None, self = ''A'',
      opts = \<lparr>BasePath = ''/_groupcache/'', Replicas = 2, HashFn = Some bytesum\<rparr>,
      peers = New 2 (Some bytesum), httpGetters = Map.empty\<rparr>"

section \<open>Package groupcache: sinks (sinks.go)\<close>

subsection \<open>Byte slices in a store\<close>

text \<open>
  The claims about sinks depend on which byte arrays are shared, so byte slices live in
  an explicit store: a list of arrays, addressed by position; allocation appends.
  A non-nil slice is a window on one array: the array's address, the offset of the
  slice's first element, its length and its capacity. The nil slice is \<open>None\<close>.
  A pointer to a variable (\<open>*string\<close>, \<open>*[]byte\<close>, \<open>*ByteView\<close>) is modelled by the
  variable's current value, and a nil pointer by \<open>None\<close>.
\<close>

type_synonym heap = "string list"

record slice =
  arr :: nat
  off :: nat
  len :: nat
  cap :: nat

type_synonym bytes = "slice option"

definition slen :: "bytes \<Rightarrow> nat" where
  "slen b = (case b of None \<Rightarrow> 0 | Some s \<Rightarrow> len s)"

definition scap :: "bytes \<Rightarrow> nat" where
  "scap b = (case b of None \<Rightarrow> 0 | Some s \<Rightarrow> cap s)"

text \<open>The bytes a slice holds: the conversion \<open>string(b)\<close>.\<close>

definition contents :: "heap \<Rightarrow> bytes \<Rightarrow> string" where
  "contents h b = (case b of None \<Rightarrow> [] | Some s \<Rightarrow> take (len s) (drop (off s) (h ! arr s)))"

text \<open>A slice is valid in a store when its window lies inside an allocated array.\<close>

definition valid :: "heap \<Rightarrow> bytes \<Rightarrow> bool" where
  "valid h b =
     (case b of None \<Rightarrow> True
      | Some s \<Rightarrow> arr s < length h \<and> len s \<le> cap s \<and> off s + cap s \<le> length (h ! arr s))"

text \<open>\<open>make([]byte, n)\<close> (here \<open>make_bytes\<close>): a fresh zeroed array; the slice is not nil, even for \<open>n = 0\<close>.\<close>

definition make_bytes :: "heap \<Rightarrow> nat \<Rightarrow> heap \<times> bytes" where
  "make_bytes h n = (h @ [replicate n (CHR 0x00)], Some \<lparr>arr = length h, off = 0, len = n, cap = n\<rparr>)"

text \<open>\<open>[]byte(v)\<close> for a string \<open>v\<close>: a fresh array holding the bytes of \<open>v\<close>.\<close>

definition bytes_of_string :: "heap \<Rightarrow> string \<Rightarrow> heap \<times> bytes" where
  "bytes_of_string h v =
     (h @ [v], Some \<lparr>arr = length h, off = 0, len = length v, cap = length v\<rparr>)"

text \<open>
  The builtin \<open>copy(dst, src)\<close>, for \<open>src\<close> a string or the bytes read from a slice:
  it writes the first \<open>n = min(len(dst), len(src))\<close> bytes of \<open>src\<close> at the start of
  \<open>dst\<close> and returns \<open>n\<close>.
\<close>

definition copy :: "heap \<Rightarrow> bytes \<Rightarrow> string \<Rightarrow> heap \<times> nat" where
  "copy h dst src =
     (case dst of
        None \<Rightarrow> (h, 0)
      | Some d \<Rightarrow>
          (let n = min (len d) (length src); a = h ! arr d
           in (h[arr d := take (off d) a @ take n src @ drop (off d + n) a], n)))"

text \<open>The slice expression \<open>b[:n]\<close>, used by the code only with \<open>n < len(b)\<close>.\<close>

definition reslice :: "bytes \<Rightarrow> nat \<Rightarrow> bytes" where
  "reslice b n = (case b of None \<Rightarrow> None | Some s \<Rightarrow> Some (s\<lparr>len := n\<rparr>))"

definition cloneBytes :: "heap \<Rightarrow> bytes \<Rightarrow> heap \<times> bytes" where
  "cloneBytes h b =
     (let (h1, c) = make_bytes h (slen b);
          (h2, n) = copy h1 c (contents h1 b)
      in (h2, c))"

subsection \<open>ByteView\<close>

text \<open>
  Modelled from the spec: the declaration of \<open>ByteView\<close> and its accessors (byteview.go)
  are not among the sources; sinks.go reads and writes its two fields \<open>b\<close> (a byte
  slice) and \<open>s\<close> (a string), here \<open>bv_b\<close> and \<open>bv_s\<close>. By the spec a view holds either
  a byte buffer or a string, and \<open>ByteSlice\<close>, \<open>Len\<close>, \<open>String\<close> read whichever is
  populated: the buffer when it is not nil, the string otherwise.
\<close>

record ByteView =
  bv_b :: bytes
  bv_s :: string

definition ByteSlice :: "heap \<Rightarrow> ByteView \<Rightarrow> string" where
  "ByteSlice h v = (case bv_b v of None \<Rightarrow> bv_s v | Some s \<Rightarrow> contents h (Some s))"

definition zero_view :: ByteView where
  "zero_view = \<lparr>bv_b = None, bv_s = []\<rparr>"

subsection \<open>The five sinks\<close>

text \<open>An \<open>error\<close> value made by \<open>errors.New\<close> or returned by the proto library.\<close>

datatype error = Err string

text \<open>
  \<open>proto.Marshal\<close> and \<open>proto.Unmarshal\<close> belong to an external library; they are
  parameters. \<open>Marshal m\<close> gives the encoding or an error; \<open>Unmarshal data dst\<close> gives the
  message that \<open>dst\<close> holds afterwards, or an error.
\<close>

record 'm proto =
  Marshal :: "'m \<Rightarrow> error + string"
  Unmarshal :: "string \<Rightarrow> 'm \<Rightarrow> error + 'm"

text \<open>
  The five implementations of \<open>Sink\<close>, with their fields in the order of the source:
  \<open>stringSink{sp, v}\<close>, \<open>byteViewSink{dst}\<close>, \<open>protoSink{dst, typ, v}\<close>,
  \<open>allocBytesSink{dst, v}\<close>, \<open>truncBytesSink{dst, v}\<close>.
\<close>

datatype 'm Sink =
    stringSink "string option" ByteView
  | byteViewSink ByteView
  | protoSink 'm string ByteView
  | allocBytesSink "bytes option" ByteView
  | truncBytesSink "bytes option" ByteView

definition StringSink :: "string option \<Rightarrow> 'm Sink" where
  "StringSink sp = stringSink sp zero_view"

definition ByteViewSink :: "ByteView option \<Rightarrow> panic + 'm Sink" where
  "ByteViewSink dst = (case dst of None \<Rightarrow> Inl (Panic ''nil dst'') | Some d \<Rightarrow> Inr (byteViewSink d))"

definition ProtoSink :: "'m \<Rightarrow> 'm Sink" where
  "ProtoSink m = protoSink m [] zero_view"

definition AllocatingByteSliceSink :: "bytes option \<Rightarrow> 'm Sink" where
  "AllocatingByteSliceSink dst = allocBytesSink dst zero_view"

definition TruncatingByteSliceSink :: "bytes option \<Rightarrow> 'm Sink" where
  "TruncatingByteSliceSink dst = truncBytesSink dst zero_view"

fun view :: "'m Sink \<Rightarrow> ByteView" where
  "view (stringSink sp v) = v"
| "view (byteViewSink dst) = dst"
| "view (protoSink dst typ v) = v"
| "view (allocBytesSink dst v) = v"
| "view (truncBytesSink dst v) = v"

text \<open>
  A setter returns a panic, or its \<open>error\<close> result (\<open>None\<close> for nil) with the sink and
  the store as it leaves them.
\<close>

type_synonym 'm setter_result = "panic + (error option \<times> 'm Sink \<times> heap)"

definition nil_deref :: panic where
  "nil_deref = Panic ''runtime error: invalid memory address or nil pointer dereference''"

text \<open>\<open>allocBytesSink.setBytesOwned\<close> and \<open>truncBytesSink.setBytesOwned\<close>; the other
  sinks have no such method (the last equation only makes the function total).\<close>

fun setBytesOwned :: "'m Sink \<Rightarrow> bytes \<Rightarrow> heap \<Rightarrow> 'm setter_result" where
  "setBytesOwned (allocBytesSink dst v) b h =
     (case dst of
        None \<Rightarrow> Inr (Some (Err ''nil AllocatingByteSliceSink *[]byte dst''), allocBytesSink dst v, h)
      | Some d \<Rightarrow>
          (let (h1, c) = cloneBytes h b
           in Inr (None, allocBytesSink (Some c) (v\<lparr>bv_b := b, bv_s := []\<rparr>), h1)))"
| "setBytesOwned (truncBytesSink dst v) b h =
     (case dst of
        None \<Rightarrow> Inr (Some (Err ''nil TruncatingByteSliceSink *[]byte dst''), truncBytesSink dst v, h)
      | Some d \<Rightarrow>
          (let (h1, n) = copy h d (contents h b);
               d1 = (if n < slen d then reslice d n else d)
           in Inr (None, truncBytesSink (Some d1) (v\<lparr>bv_b := b, bv_s := []\<rparr>), h1)))"
| "setBytesOwned snk b h = Inr (None, snk, h)"

fun SetString :: "'m proto \<Rightarrow> 'm Sink \<Rightarrow> string \<Rightarrow> heap \<Rightarrow> 'm setter_result" where
  "SetString P (stringSink sp v) x h =
     (case sp of
        None \<Rightarrow> Inl nil_deref
      | Some old \<Rightarrow> Inr (None, stringSink (Some x) (v\<lparr>bv_b := None, bv_s := x\<rparr>), h))"
| "SetString P (byteViewSink dst) x h =
     Inr (None, byteViewSink \<lparr>bv_b = None, bv_s = x\<rparr>, h)"
| "SetString P (protoSink dst typ v) x h =
     (let (h1, b) = bytes_of_string h x
      in case Unmarshal P (contents h1 b) dst of
           Inl e \<Rightarrow> Inr (Some e, protoSink dst typ v, h1)
         | Inr dst1 \<Rightarrow> Inr (None, protoSink dst1 typ (v\<lparr>bv_b := b, bv_s := []\<rparr>), h1))"
| "SetString P (allocBytesSink dst v) x h =
     (case dst of
        None \<Rightarrow> Inr (Some (Err ''nil AllocatingByteSliceSink *[]byte dst''), allocBytesSink dst v, h)
      | Some d \<Rightarrow>
          (let (h1, c) = bytes_of_string h x
           in Inr (None, allocBytesSink (Some c) (v\<lparr>bv_b := None, bv_s := x\<rparr>), h1)))"
| "SetString P (truncBytesSink dst v) x h =
     (case dst of
        None \<Rightarrow> Inr (Some (Err ''nil TruncatingByteSliceSink *[]byte dst''), truncBytesSink dst v, h)
      | Some d \<Rightarrow>
          (let (h1, n) = copy h d x;
               d1 = (if n < slen d then reslice d n else d)
           in Inr (None, truncBytesSink (Some d1) (v\<lparr>bv_b := None, bv_s := x\<rparr>), h1)))"

fun SetBytes :: "'m proto \<Rightarrow> 'm Sink \<Rightarrow> bytes \<Rightarrow> heap \<Rightarrow> 'm setter_result" where
  "SetBytes P (stringSink sp v) b h = SetString P (stringSink sp v) (contents h b) h"
| "SetBytes P (byteViewSink dst) b h =
     (let (h1, c) = cloneBytes h b
      in Inr (None, byteViewSink \<lparr>bv_b = c, bv_s = []\<rparr>, h1))"
| "SetBytes P (protoSink dst typ v) b h =
     (case Unmarshal P (contents h b) dst of
        Inl e \<Rightarrow> Inr (Some e, protoSink dst typ v, h)
      | Inr dst1 \<Rightarrow>
          (let (h1, c) = cloneBytes h b
           in Inr (None, protoSink dst1 typ (v\<lparr>bv_b := c, bv_s := []\<rparr>), h1)))"
| "SetBytes P (allocBytesSink dst v) b h =
     (let (h1, c) = cloneBytes h b in setBytesOwned (allocBytesSink dst v) c h1)"
| "SetBytes P (truncBytesSink dst v) b h =
     (let (h1, c) = cloneBytes h b in setBytesOwned (truncBytesSink dst v) c h1)"

fun SetProto :: "'m proto \<Rightarrow> 'm Sink \<Rightarrow> 'm \<Rightarrow> heap \<Rightarrow> 'm setter_result" where
  "SetProto P (stringSink sp v) m h =
     (case Marshal P m of
        Inl e \<Rightarrow> Inr (Some e, stringSink sp v, h)
      | Inr enc \<Rightarrow>
          (let (h1, b) = bytes_of_string h enc
           in case sp of
                None \<Rightarrow> Inl nil_deref
              | Some old \<Rightarrow> Inr (None, stringSink (Some (contents h1 b)) (v\<lparr>bv_b := b\<rparr>), h1)))"
| "SetProto P (byteViewSink dst) m h =
     (case Marshal P m of
        Inl e \<Rightarrow> Inr (Some e, byteViewSink dst, h)
      | Inr enc \<Rightarrow>
          (let (h1, b) = bytes_of_string h enc
           in Inr (None, byteViewSink \<lparr>bv_b = b, bv_s = []\<rparr>, h1)))"
| "SetProto P (protoSink dst typ v) m h =
     (case Marshal P m of
        Inl e \<Rightarrow> Inr (Some e, protoSink dst typ v, h)
      | Inr enc \<Rightarrow>
          (let (h1, b) = bytes_of_string h enc
           in case Unmarshal P (contents h1 b) dst of
                Inl e \<Rightarrow> Inr (Some e, protoSink dst typ v, h1)
              | Inr dst1 \<Rightarrow> Inr (None, protoSink dst1 typ (v\<lparr>bv_b := b, bv_s := []\<rparr>), h1)))"
| "SetProto P (allocBytesSink dst v) m h =
     (case Marshal P m of
        Inl e \<Rightarrow> Inr (Some e, allocBytesSink dst v, h)
      | Inr enc \<Rightarrow>
          (let (h1, b) = bytes_of_string h enc in setBytesOwned (allocBytesSink dst v) b h1))"
| "SetProto P (truncBytesSink dst v) m h =
     (case Marshal P m of
        Inl e \<Rightarrow> Inr (Some e, truncBytesSink dst v, h)
      | Inr enc \<Rightarrow>
          (let (h1, b) = bytes_of_string h enc in setBytesOwned (truncBytesSink dst v) b h1))"

text \<open>
  The slices a sink refers to are valid in the store, and those of its view and of its
  destination are different arrays (the destination belongs to the caller).
\<close>

fun sink_valid :: "heap \<Rightarrow> 'm Sink \<Rightarrow> bool" where
  "sink_valid h (stringSink sp v) = valid h (bv_b v)"
| "sink_valid h (byteViewSink dst) = valid h (bv_b dst)"
| "sink_valid h (protoSink dst typ v) = valid h (bv_b v)"
| "sink_valid h (allocBytesSink dst v) =
     (valid h (bv_b v) \<and> (case dst of None \<Rightarrow> True | Some d \<Rightarrow> valid h d))"
| "sink_valid h (truncBytesSink dst v) =
     (valid h (bv_b v) \<and> (case dst of None \<Rightarrow> True | Some d \<Rightarrow> valid h d))"

text \<open>A codec for examples: messages are strings, encoded as themselves; the empty
  encoding is rejected.\<close>

definition ex_proto :: "string proto" where
  "ex_proto =
     \<lparr>Marshal = (\<lambda>m. Inr m),
      Unmarshal = (\<lambda>data dst. if data = [] then Inl (Err ''empty'') else Inr data)\<rparr>"

text \<open>A store and slices for examples: a destination of length 2 and capacity 10, and
  the five bytes \<open>hello\<close>.\<close>

definition ex_heap :: heap where
  "ex_heap = [replicate 10 (CHR 0x00), ''hello'']"

definition ex_dst :: bytes where
  "ex_dst = Some \<lparr>arr = 0, off = 0, len = 2, cap = 10\<rparr>"

definition ex_hello :: bytes where
  "ex_hello = Some \<lparr>arr = 1, off = 0, len = 5, cap = 5\<rparr>"

section \<open>Package singleflight (singleflight/singleflight.go)\<close>

text \<open>
  \<open>Do\<close> is run by many goroutines at once, so it is modelled by its steps on a shared
  state: a caller is one invocation of \<open>Do(key, fn)\<close>, its program counter names the
  line of singleflight.go it executes next, and a step of one caller executes that
  line. The mutex and the wait group order all accesses to \<open>g.m\<close> and to the fields of
  a \<open>call\<close>, so the interleaving of these steps describes every execution.

  Values of type \<open>interface{}\<close> and \<open>error\<close> are \<open>'v option\<close> and \<open>'e option\<close>,
  \<open>None\<close> for nil. A \<open>*call\<close> is the index of the call among those allocated so far.
  The function \<open>fn\<close> is any computation that does not itself use the group: a step
  receives the pair that \<open>fn\<close> returns when the step is \<open>fn\<close>'s return.
\<close>

type_synonym ('v, 'e) result = "'v option \<times> 'e option"

record ('v, 'e) call =
  c_wg :: nat
  c_val :: "'v option"
  c_err :: "'e option"

text \<open>
  Program counters. \<open>L48\<close> to \<open>L77\<close> stand before the statement on that line;
  \<open>InFn\<close> is inside the call \<open>fn()\<close> of line 68; \<open>RetF\<close> and \<open>RetP\<close> are a caller that
  has returned from line 57 (it found a call in flight) or from line 77 (it made the
  call), with the pair it returned; \<open>Panicked\<close> is a write to a nil map.
\<close>

datatype ('v, 'e) pc =
    L48 | L49 | L53
  | L54 nat | L55 nat | L57 nat
  | L60 | L62 nat | L64 nat | L65 nat
  | L68 nat | InFn nat | L70 nat | L72 nat | L74 nat | L75 nat | L77 nat
  | RetF nat "('v, 'e) result"
  | RetP nat "('v, 'e) result"
  | Panicked

text \<open>
  A caller: the key it was called with, its program counter, and two history fields
  that the code does not have: how many times this caller has invoked \<open>fn\<close>, and the
  pair \<open>fn\<close> returned to it.
\<close>

record ('v, 'e) caller =
  t_key :: string
  t_pc :: "('v, 'e) pc"
  t_fn_calls :: nat
  t_fn_result :: "('v, 'e) result option"

text \<open>The \<open>Group\<close> (\<open>mu\<close>: the caller holding the mutex; \<open>m\<close>: nil until line 50),
  the calls allocated by \<open>new(call)\<close>, and the callers.\<close>

record ('v, 'e) flight =
  g_mu :: "nat option"
  g_m :: "(string \<rightharpoonup> nat) option"
  g_calls :: "('v, 'e) call list"
  callers :: "nat \<Rightarrow> ('v, 'e) caller"

text \<open>Reading \<open>g.m[key]\<close>; a nil map has no entries.\<close>

definition inflight :: "('v, 'e) flight \<Rightarrow> string \<Rightarrow> nat option" where
  "inflight s k = (case g_m s of None \<Rightarrow> None | Some mp \<Rightarrow> mp k)"

definition goto :: "nat \<Rightarrow> ('v, 'e) pc \<Rightarrow> ('v, 'e) flight \<Rightarrow> ('v, 'e) flight" where
  "goto t p s = s\<lparr>callers := (callers s)(t := (callers s t)\<lparr>t_pc := p\<rparr>)\<rparr>"

definition upd_call ::
    "nat \<Rightarrow> (('v, 'e) call \<Rightarrow> ('v, 'e) call) \<Rightarrow> ('v, 'e) flight \<Rightarrow> ('v, 'e) flight" where
  "upd_call c f s = s\<lparr>g_calls := (g_calls s)[c := f (g_calls s ! c)]\<rparr>"

text \<open>
  One step of caller \<open>t\<close>; \<open>r\<close> is what \<open>fn\<close> returns, used by the step that leaves
  \<open>fn\<close>. \<open>None\<close>: the caller cannot move (it waits for the mutex or the wait group, or
  it has returned).
\<close>

definition Do_step ::
    "nat \<Rightarrow> ('v, 'e) result \<Rightarrow> ('v, 'e) flight \<Rightarrow> ('v, 'e) flight option" where
  "Do_step t r s =
     (let k = t_key (callers s t) in
      case t_pc (callers s t) of
        L48 \<Rightarrow> (if g_mu s = None then Some (goto t L49 (s\<lparr>g_mu := Some t\<rparr>)) else None)
      | L49 \<Rightarrow> Some (goto t L53 (if g_m s = None then s\<lparr>g_m := Some Map.empty\<rparr> else s))
      | L53 \<Rightarrow> Some (case inflight s k of Some c \<Rightarrow> goto t (L54 c) s | None \<Rightarrow> goto t L60 s)
      | L54 c \<Rightarrow> Some (goto t (L55 c) (s\<lparr>g_mu := None\<rparr>))
      | L55 c \<Rightarrow> (if c_wg (g_calls s ! c) = 0 then Some (goto t (L57 c) s) else None)
      | L57 c \<Rightarrow> Some (goto t (RetF c (c_val (g_calls s ! c), c_err (g_calls s ! c))) s)
      | L60 \<Rightarrow>
          Some (goto t (L62 (length (g_calls s)))
                  (s\<lparr>g_calls := g_calls s @ [\<lparr>c_wg = 0, c_val = None, c_err = None\<rparr>]\<rparr>))
      | L62 c \<Rightarrow> Some (goto t (L64 c) (upd_call c (\<lambda>x. x\<lparr>c_wg := c_wg x + 1\<rparr>) s))
      | L64 c \<Rightarrow>
          Some (case g_m s of
                  None \<Rightarrow> goto t Panicked s
                | Some mp \<Rightarrow> goto t (L65 c) (s\<lparr>g_m := Some (mp(k \<mapsto> c))\<rparr>))
      | L65 c \<Rightarrow> Some (goto t (L68 c) (s\<lparr>g_mu := None\<rparr>))
      | L68 c \<Rightarrow>
          Some (s\<lparr>callers := (callers s)
                  (t := (callers s t)\<lparr>t_pc := InFn c, t_fn_calls := t_fn_calls (callers s t) + 1\<rparr>)\<rparr>)
      | InFn c \<Rightarrow>
          Some ((upd_call c (\<lambda>x. x\<lparr>c_val := fst r, c_err := snd r\<rparr>) s)
                  \<lparr>callers := (callers s)
                     (t := (callers s t)\<lparr>t_pc := L70 c, t_fn_result := Some r\<rparr>)\<rparr>)
      | L70 c \<Rightarrow> Some (goto t (L72 c) (upd_call c (\<lambda>x. x\<lparr>c_wg := c_wg x - 1\<rparr>) s))
      | L72 c \<Rightarrow> (if g_mu s = None then Some (goto t (L74 c) (s\<lparr>g_mu := Some t\<rparr>)) else None)
      | L74 c \<Rightarrow>
          Some (goto t (L75 c)
                  (case g_m s of None \<Rightarrow> s | Some mp \<Rightarrow> s\<lparr>g_m := Some (mp(k := None))\<rparr>))
      | L75 c \<Rightarrow> Some (goto t (L77 c) (s\<lparr>g_mu := None\<rparr>))
      | L77 c \<Rightarrow> Some (goto t (RetP c (c_val (g_calls s ! c), c_err (g_calls s ! c))) s)
      | RetF c x \<Rightarrow> None
      | RetP c x \<Rightarrow> None
      | Panicked \<Rightarrow> None)"

text \<open>The zero \<open>Group\<close> with no call made yet; caller \<open>t\<close> will call \<open>Do (ks t) fn\<close>.\<close>

definition flight_init :: "(nat \<Rightarrow> string) \<Rightarrow> ('v, 'e) flight" where
  "flight_init ks =
     \<lparr>g_mu = None, g_m = None, g_calls = [],
      callers = (\<lambda>t. \<lparr>t_key = ks t, t_pc = L48, t_fn_calls = 0, t_fn_result = None\<rparr>)\<rparr>"

text \<open>The states that the callers can reach, in any interleaving and with any results
  of \<open>fn\<close>.\<close>

inductive reachable :: "(nat \<Rightarrow> string) \<Rightarrow> ('v, 'e) flight \<Rightarrow> bool" for ks where
  reach_init: "reachable ks (flight_init ks)"
| reach_step: "reachable ks s \<Longrightarrow> Do_step t r s = Some s' \<Longrightarrow> reachable ks s'"

text \<open>A schedule is a list of steps, each naming the caller that moves and the result
  \<open>fn\<close> gives if the step is its return; \<open>run\<close> executes it, and fails if a caller named
  cannot move.\<close>

fun run :: "(nat \<times> ('v, 'e) result) list \<Rightarrow> ('v, 'e) flight \<Rightarrow> ('v, 'e) flight option" where
  "run [] s = Some s"
| "run ((t, r) # sch) s = (case Do_step t r s of None \<Rightarrow> None | Some s' \<Rightarrow> run sch s')"

text \<open>Classification of program counters: the caller holds the mutex; the caller made
  call \<open>c\<close>; the caller made \<open>c\<close> and \<open>g.m[key]\<close> is \<open>c\<close>; the caller made \<open>c\<close> and has
  stored it; the caller found \<open>c\<close> in flight; the stage of the maker with respect
  to \<open>fn\<close> and \<open>wg\<close>.\<close>

fun holds_lock :: "('v, 'e) pc \<Rightarrow> bool" where
  "holds_lock L49 = True"
| "holds_lock L53 = True"
| "holds_lock (L54 c) = True"
| "holds_lock L60 = True"
| "holds_lock (L62 c) = True"
| "holds_lock (L64 c) = True"
| "holds_lock (L65 c) = True"
| "holds_lock (L74 c) = True"
| "holds_lock (L75 c) = True"
| "holds_lock p = False"

fun pioneer_of :: "('v, 'e) pc \<Rightarrow> nat option" where
  "pioneer_of (L62 c) = Some c"
| "pioneer_of (L64 c) = Some c"
| "pioneer_of (L65 c) = Some c"
| "pioneer_of (L68 c) = Some c"
| "pioneer_of (InFn c) = Some c"
| "pioneer_of (L70 c) = Some c"
| "pioneer_of (L72 c) = Some c"
| "pioneer_of (L74 c) = Some c"
| "pioneer_of (L75 c) = Some c"
| "pioneer_of (L77 c) = Some c"
| "pioneer_of (RetP c x) = Some c"
| "pioneer_of p = None"

fun owns :: "('v, 'e) pc \<Rightarrow> nat option" where
  "owns (L65 c) = Some c"
| "owns (L68 c) = Some c"
| "owns (InFn c) = Some c"
| "owns (L70 c) = Some c"
| "owns (L72 c) = Some c"
| "owns (L74 c) = Some c"
| "owns p = None"

fun follower_of :: "('v, 'e) pc \<Rightarrow> nat option" where
  "follower_of (L54 c) = Some c"
| "follower_of (L55 c) = Some c"
| "follower_of (L57 c) = Some c"
| "follower_of (RetF c x) = Some c"
| "follower_of p = None"

text \<open>Stage of a caller: 0 before it calls \<open>fn\<close>, 1 inside \<open>fn\<close>, 2 after \<open>fn\<close> has
  returned and before \<open>wg.Done\<close>, 3 after \<open>wg.Done\<close>.\<close>

fun stage :: "('v, 'e) pc \<Rightarrow> nat" where
  "stage (InFn c) = 1"
| "stage (L70 c) = 2"
| "stage (L72 c) = 3"
| "stage (L74 c) = 3"
| "stage (L75 c) = 3"
| "stage (L77 c) = 3"
| "stage (RetP c x) = 3"
| "stage p = 0"

text \<open>What \<open>wg\<close> counts for the caller that made the call.\<close>

fun wg_of :: "('v, 'e) pc \<Rightarrow> nat" where
  "wg_of (L64 c) = 1"
| "wg_of (L65 c) = 1"
| "wg_of (L68 c) = 1"
| "wg_of (InFn c) = 1"
| "wg_of (L70 c) = 1"
| "wg_of p = 0"

text \<open>
  The invariant of the reachable states. In order: a caller's key is the one it was
  called with; the mutex is held by exactly the caller inside a critical section;
  every call referred to is allocated; a call has one maker; between storing
  \<open>g.m[key] = c\<close> and deleting it the maker finds its call in the map, and every
  entry of the map has such a maker; a caller that found no entry still holds the
  mutex on a map without an entry for its key; the wait group counts 1 from \<open>Add\<close> to
  \<open>Done\<close>; \<open>fn\<close> has been invoked once by a caller that reached it and never by the
  others; after \<open>fn\<close> has returned the call holds what it returned; a caller that
  found a call in flight has a maker, with the same key, that stored it; past
  \<open>wg.Wait\<close> the counter is 0; what a caller returned are the fields of its call.
\<close>

definition inv_key :: "(nat \<Rightarrow> string) \<Rightarrow> ('v, 'e) flight \<Rightarrow> bool" where
  "inv_key ks s = (\<forall>t. t_key (callers s t) = ks t)"

definition inv_lock :: "('v, 'e) flight \<Rightarrow> bool" where
  "inv_lock s = (\<forall>t. (g_mu s = Some t) = holds_lock (t_pc (callers s t)))"

definition inv_alloc :: "('v, 'e) flight \<Rightarrow> bool" where
  "inv_alloc s =
     (\<forall>t c. pioneer_of (t_pc (callers s t)) = Some c \<or> follower_of (t_pc (callers s t)) = Some c
        \<longrightarrow> c < length (g_calls s))"

definition inv_maker :: "('v, 'e) flight \<Rightarrow> bool" where
  "inv_maker s =
     (\<forall>t u c. pioneer_of (t_pc (callers s t)) = Some c \<and> pioneer_of (t_pc (callers s u)) = Some c
        \<longrightarrow> t = u)"

definition inv_owner :: "('v, 'e) flight \<Rightarrow> bool" where
  "inv_owner s =
     (\<forall>t c. owns (t_pc (callers s t)) = Some c \<longrightarrow> inflight s (t_key (callers s t)) = Some c)"

definition inv_entry :: "('v, 'e) flight \<Rightarrow> bool" where
  "inv_entry s =
     (\<forall>k c. inflight s k = Some c \<longrightarrow>
        (\<exists>t. t_key (callers s t) = k \<and> owns (t_pc (callers s t)) = Some c))"

fun before_store :: "('v, 'e) pc \<Rightarrow> bool" where
  "before_store L60 = True"
| "before_store (L62 c) = True"
| "before_store (L64 c) = True"
| "before_store p = False"

definition inv_absent :: "('v, 'e) flight \<Rightarrow> bool" where
  "inv_absent s =
     (\<forall>t. (before_store (t_pc (callers s t)) \<longrightarrow>
             g_m s \<noteq> None \<and> inflight s (t_key (callers s t)) = None) \<and>
          (t_pc (callers s t) = L53 \<longrightarrow> g_m s \<noteq> None) \<and>
          t_pc (callers s t) \<noteq> Panicked)"

definition inv_wg :: "('v, 'e) flight \<Rightarrow> bool" where
  "inv_wg s =
     (\<forall>t c. pioneer_of (t_pc (callers s t)) = Some c \<longrightarrow>
        c_wg (g_calls s ! c) = wg_of (t_pc (callers s t)))"

definition inv_once :: "('v, 'e) flight \<Rightarrow> bool" where
  "inv_once s =
     (\<forall>t. t_fn_calls (callers s t) = (if stage (t_pc (callers s t)) = 0 then 0 else 1))"

definition inv_result :: "('v, 'e) flight \<Rightarrow> bool" where
  "inv_result s =
     (\<forall>t c. pioneer_of (t_pc (callers s t)) = Some c \<and> 2 \<le> stage (t_pc (callers s t)) \<longrightarrow>
        t_fn_result (callers s t) = Some (c_val (g_calls s ! c), c_err (g_calls s ! c)))"

definition inv_follow :: "('v, 'e) flight \<Rightarrow> bool" where
  "inv_follow s =
     (\<forall>t c. follower_of (t_pc (callers s t)) = Some c \<longrightarrow>
        (\<exists>p. p \<noteq> t \<and> t_key (callers s p) = t_key (callers s t) \<and>
             pioneer_of (t_pc (callers s p)) = Some c \<and>
             (owns (t_pc (callers s p)) = Some c \<or> stage (t_pc (callers s p)) = 3)))"

definition inv_waited :: "('v, 'e) flight \<Rightarrow> bool" where
  "inv_waited s =
     (\<forall>t c. (t_pc (callers s t) = L57 c \<longrightarrow> c_wg (g_calls s ! c) = 0) \<and>
            (\<forall>x. t_pc (callers s t) = RetF c x \<longrightarrow>
                 c_wg (g_calls s ! c) = 0 \<and>
                 x = (c_val (g_calls s ! c), c_err (g_calls s ! c))) \<and>
            (\<forall>x. t_pc (callers s t) = RetP c x \<longrightarrow>
                 x = (c_val (g_calls s ! c), c_err (g_calls s ! c))))"

definition flight_inv :: "(nat \<Rightarrow> string) \<Rightarrow> ('v, 'e) flight \<Rightarrow> bool" where
  "flight_inv ks s \<longleftrightarrow>
     inv_key ks s \<and> inv_lock s \<and> inv_alloc s \<and> inv_maker s \<and> inv_owner s \<and> inv_entry s \<and>
     inv_absent s \<and> inv_wg s \<and> inv_once s \<and> inv_result s \<and> inv_follow s \<and> inv_waited s"

text \<open>An execution for examples: callers 0 and 1 call \<open>Do\<close> with the same key. Caller 0
  runs up to its \<open>return\<close> on line 77, its \<open>fn\<close> giving \<open>a\<close>; caller 1 then runs its whole
  call, its \<open>fn\<close> giving \<open>b\<close>; at last caller 0 returns.\<close>

definition ex_a :: "(string, string) result" where
  "ex_a = (Some ''a'', None)"

definition ex_b :: "(string, string) result" where
  "ex_b = (Some ''b'', None)"

definition ex_flight :: "(string, string) flight" where
  "ex_flight = flight_init (\<lambda>t. ''k'')"

definition ex_schedule :: "(nat \<times> (string, string) result) list" where
  "ex_schedule = replicate 13 (0, ex_a) @ replicate 14 (1, ex_b)"

text \<open>What is seen of callers 0 and 1 in a state: their program counters and how many
  times each has invoked \<open>fn\<close>.\<close>

definition observe ::
    "('v, 'e) flight \<Rightarrow> ('v, 'e) pc \<times> ('v, 'e) pc \<times> nat \<times> nat" where
  "observe s =
     (t_pc (callers s 0), t_pc (callers s 1), t_fn_calls (callers s 0), t_fn_calls (callers s 1))"

text \<open>A second execution: caller 0 stores its call and releases the mutex, caller 1 finds
  the call, caller 0 runs \<open>fn\<close> (giving \<open>a\<close>) up to \<open>wg.Done\<close>, and caller 1 returns.\<close>

definition ex_follow_schedule :: "(nat \<times> (string, string) result) list" where
  "ex_follow_schedule =
     replicate 7 (0, ex_a) @ replicate 4 (1, ex_b) @ replicate 3 (0, ex_a) @ replicate 2 (1, ex_b)"

text \<open>A third execution: caller 0 runs up to its \<open>return\<close> on line 77; caller 1 then runs
  lines 48 to 64, storing its own call for the same key; then caller 0 returns.\<close>

definition ex_reentry_schedule :: "(nat \<times> (string, string) result) list" where
  "ex_reentry_schedule = replicate 13 (0, ex_a) @ replicate 6 (1, ex_b) @ [(0, ex_a)]"

section \<open>The ring: what Add builds\<close>

lemma add_replica_fields:
  "hash (add_replica key m i) = hash m"
  "replicas (add_replica key m i) = replicas m"
  "keys (add_replica key m i) = keys m @ [uint (hash m (Itoa (int i) @ key))]"
  "hashMap (add_replica key m i) = (hashMap m)(uint (hash m (Itoa (int i) @ key)) \<mapsto> key)"
  by (simp_all add: add_replica_def Let_def)

lemma foldl_add_replica:
  "hash (foldl (add_replica key) m is) = hash m \<and>
   replicas (foldl (add_replica key) m is) = replicas m \<and>
   keys (foldl (add_replica key) m is) =
     keys m @ map (\<lambda>i. uint (hash m (Itoa (int i) @ key))) is \<and>
   hashMap (foldl (add_replica key) m is) =
     hashMap m ++ map_of (rev (map (\<lambda>i. (uint (hash m (Itoa (int i) @ key)), key)) is))"
proof (induction "is" arbitrary: m)
  case Nil
  show ?case by simp
next
  case (Cons i "is")
  show ?case
    by (simp add: Cons.IH add_replica_fields map_add_def fun_eq_iff split: option.splits)
qed

lemma add_key_fields:
  "hash (add_key m p) = hash m"
  "replicas (add_key m p) = replicas m"
  "keys (add_key m p) = keys m @ map fst (vnodes (hash m) (replicas m) [p])"
  "hashMap (add_key m p) = hashMap m ++ map_of (rev (vnodes (hash m) (replicas m) [p]))"
  by (simp_all add: add_key_def foldl_add_replica vnodes_def comp_def)

lemma vnodes_Cons:
  "vnodes hf r (p # ps) = vnodes hf r [p] @ vnodes hf r ps"
  by (simp add: vnodes_def)

lemma vnodes_append:
  "vnodes hf r (ps @ qs) = vnodes hf r ps @ vnodes hf r qs"
  by (simp add: vnodes_def)

lemma foldl_add_key:
  "hash (foldl add_key m ps) = hash m \<and>
   replicas (foldl add_key m ps) = replicas m \<and>
   keys (foldl add_key m ps) = keys m @ map fst (vnodes (hash m) (replicas m) ps) \<and>
   hashMap (foldl add_key m ps) = hashMap m ++ map_of (rev (vnodes (hash m) (replicas m) ps))"
proof (induction ps arbitrary: m)
  case Nil
  show ?case by (simp add: vnodes_def)
next
  case (Cons p ps)
  show ?case
    by (simp add: Cons.IH add_key_fields vnodes_Cons [of _ _ p ps])
qed

lemma Add_fields:
  "hash (Add m ps) = hash m"
  "replicas (Add m ps) = replicas m"
  "keys (Add m ps) = sort (keys m @ map fst (vnodes (hash m) (replicas m) ps))"
  "hashMap (Add m ps) = hashMap m ++ map_of (rev (vnodes (hash m) (replicas m) ps))"
  by (simp_all add: Add_def Let_def foldl_add_key)

lemma sort_sort_append:
  fixes xs ys :: "int list"
  shows "sort (sort xs @ ys) = sort (xs @ ys)"
  by (rule properties_for_sort) simp_all

lemma foldl_Add:
  "hash (foldl Add m adds) = hash m \<and>
   replicas (foldl Add m adds) = replicas m \<and>
   sort (keys (foldl Add m adds)) =
     sort (keys m @ map fst (vnodes (hash m) (replicas m) (concat adds))) \<and>
   (adds \<noteq> [] \<longrightarrow> sorted (keys (foldl Add m adds))) \<and>
   hashMap (foldl Add m adds) =
     hashMap m ++ map_of (rev (vnodes (hash m) (replicas m) (concat adds)))"
proof (induction adds arbitrary: m)
  case Nil
  show ?case by (simp add: vnodes_def)
next
  case (Cons a adds)
  have s: "sorted (keys (foldl Add (Add m a) adds))"
    using Cons.IH [of "Add m a"] by (cases "adds = []") (simp_all add: Add_fields)
  have k: "sort (keys (foldl Add (Add m a) adds)) =
           sort (keys m @ map fst (vnodes (hash m) (replicas m) (concat (a # adds))))"
  proof -
    have "sort (keys (foldl Add (Add m a) adds)) =
          sort (sort (keys m @ map fst (vnodes (hash m) (replicas m) a)) @
                map fst (vnodes (hash m) (replicas m) (concat adds)))"
      using Cons.IH [of "Add m a"] by (simp add: Add_fields)
    also have "\<dots> = sort ((keys m @ map fst (vnodes (hash m) (replicas m) a)) @
                map fst (vnodes (hash m) (replicas m) (concat adds)))"
      by (rule sort_sort_append)
    finally show ?thesis by (simp add: vnodes_append)
  qed
  have h: "hashMap (foldl Add (Add m a) adds) =
           hashMap m ++ map_of (rev (vnodes (hash m) (replicas m) (concat (a # adds))))"
    using Cons.IH [of "Add m a"] by (simp add: Add_fields vnodes_append)
  show ?case
    using s k h Cons.IH [of "Add m a"] by (simp add: Add_fields)
qed

lemma ring_fields:
  "hash (ring r fn adds) = (case fn of None \<Rightarrow> ChecksumIEEE | Some f \<Rightarrow> f)"
  "replicas (ring r fn adds) = r"
  "keys (ring r fn adds) = sort (map fst (vnodes (hash (New r fn)) r (concat adds)))"
  "hashMap (ring r fn adds) = map_of (rev (vnodes (hash (New r fn)) r (concat adds)))"
proof -
  note f = foldl_Add [of "New r fn" adds]
  show "hash (ring r fn adds) = (case fn of None \<Rightarrow> ChecksumIEEE | Some f \<Rightarrow> f)"
    using f by (simp add: ring_def New_def)
  show "replicas (ring r fn adds) = r"
    using f by (simp add: ring_def New_def)
  have srt: "sorted (keys (ring r fn adds))"
    using f by (cases "adds = []") (simp_all add: ring_def New_def)
  have "sort (keys (ring r fn adds)) = sort (map fst (vnodes (hash (New r fn)) r (concat adds)))"
    using f by (simp add: ring_def New_def)
  with srt show "keys (ring r fn adds) = sort (map fst (vnodes (hash (New r fn)) r (concat adds)))"
    by (simp add: sort_key_id_if_sorted)
  show "hashMap (ring r fn adds) = map_of (rev (vnodes (hash (New r fn)) r (concat adds)))"
    using f by (simp add: ring_def New_def)
qed

lemma ring_sorted: "sorted (keys (ring r fn adds))"
  by (simp add: ring_fields)

section \<open>The binary search\<close>

lemma SearchLoop_stop: "\<not> i < j \<Longrightarrow> SearchLoop f i j = i"
  by (subst SearchLoop.simps) simp

lemma SearchLoop_right:
  "i < j \<Longrightarrow> \<not> f ((i + j) div 2) \<Longrightarrow> SearchLoop f i j = SearchLoop f ((i + j) div 2 + 1) j"
  by (subst SearchLoop.simps) (simp add: Let_def)

lemma SearchLoop_left:
  "i < j \<Longrightarrow> f ((i + j) div 2) \<Longrightarrow> SearchLoop f i j = SearchLoop f i ((i + j) div 2)"
  by (subst SearchLoop.simps) (simp add: Let_def)

lemma SearchLoop_spec:
  assumes "\<forall>a b. a \<le> b \<and> b < n \<and> f a \<longrightarrow> f b"
    and "i \<le> j" and "j \<le> n"
    and "\<forall>k<i. \<not> f k" and "\<forall>k. j \<le> k \<and> k < n \<longrightarrow> f k"
  shows "SearchLoop f i j \<le> n \<and> (\<forall>k<SearchLoop f i j. \<not> f k) \<and>
         (\<forall>k. SearchLoop f i j \<le> k \<and> k < n \<longrightarrow> f k)"
  using assms
proof (induction f i j rule: SearchLoop.induct)
  case (1 f i j)
  show ?case
  proof (cases "i < j")
    case False
    with "1.prems" show ?thesis by (simp add: SearchLoop_stop)
  next
    case True
    define h where "h = (i + j) div 2"
    have hb: "i \<le> h" "h < j" using True by (simp_all add: h_def)
    show ?thesis
    proof (cases "f h")
      case False
      have lo: "\<forall>k<h + 1. \<not> f k"
      proof (intro allI impI)
        fix k assume "k < h + 1"
        then have "k \<le> h" by simp
        show "\<not> f k"
        proof
          assume "f k"
          with \<open>k \<le> h\<close> hb "1.prems"(1,3) have "f h"
            by (meson less_le_trans)
          with False show False by simp
        qed
      qed
      have "SearchLoop f i j = SearchLoop f (h + 1) j"
        using True False by (simp add: SearchLoop_right h_def)
      moreover have "SearchLoop f (h + 1) j \<le> n \<and> (\<forall>k<SearchLoop f (h + 1) j. \<not> f k) \<and>
         (\<forall>k. SearchLoop f (h + 1) j \<le> k \<and> k < n \<longrightarrow> f k)"
        using "1.IH"(1) [OF True h_def False "1.prems"(1) _ "1.prems"(3) lo "1.prems"(5)] hb
        by simp
      ultimately show ?thesis by simp
    next
      case fh: True
      have hi: "\<forall>k. h \<le> k \<and> k < n \<longrightarrow> f k"
        using fh "1.prems"(1) by blast
      have hn: "h \<le> n" using hb "1.prems"(3) by simp
      have "SearchLoop f i j = SearchLoop f i h"
        using True fh by (simp add: SearchLoop_left h_def)
      moreover have "SearchLoop f i h \<le> n \<and> (\<forall>k<SearchLoop f i h. \<not> f k) \<and>
         (\<forall>k. SearchLoop f i h \<le> k \<and> k < n \<longrightarrow> f k)"
        using "1.IH"(2) [OF True h_def _ "1.prems"(1) hb(1) hn "1.prems"(4) hi] fh
        by simp
      ultimately show ?thesis by simp
    qed
  qed
qed

lemma Search_least:
  fixes ks :: "int list"
  assumes "sorted ks"
  shows "Search (length ks) (\<lambda>i. h \<le> ks ! i) \<le> length ks \<and>
         (\<forall>k<Search (length ks) (\<lambda>i. h \<le> ks ! i). \<not> h \<le> ks ! k) \<and>
         (\<forall>k. Search (length ks) (\<lambda>i. h \<le> ks ! i) \<le> k \<and> k < length ks \<longrightarrow> h \<le> ks ! k)"
proof -
  have mono: "\<forall>a b. a \<le> b \<and> b < length ks \<and> h \<le> ks ! a \<longrightarrow> h \<le> ks ! b"
  proof (intro allI impI)
    fix a b assume ab: "a \<le> b \<and> b < length ks \<and> h \<le> ks ! a"
    then have "ks ! a \<le> ks ! b"
      using assms by (simp add: sorted_nth_mono)
    with ab show "h \<le> ks ! b" by simp
  qed
  show ?thesis
    unfolding Search_def
    by (rule SearchLoop_spec [OF mono]) simp_all
qed

lemma Get_via_idx:
  "Get m key = (if IsEmpty m then [] else lookup_peer m (keys m ! Get_idx m key))"
  by (simp add: Get_def Get_idx_def Let_def)

text \<open>\<open>Get\<close> on any map whose \<open>keys\<close> are sorted, against the least index written out.\<close>

lemma Get_sorted:
  assumes "sorted (keys m)"
  shows "Get m key =
     (if keys m = [] then []
      else lookup_peer m (keys m !
             (if \<exists>i<length (keys m). uint (hash m key) \<le> keys m ! i
              then (LEAST i. i < length (keys m) \<and> uint (hash m key) \<le> keys m ! i)
              else 0)))"
proof (cases "keys m = []")
  case True
  then show ?thesis by (simp add: Get_def IsEmpty_def)
next
  case False
  define h where "h = uint (hash m key)"
  define n where "n = length (keys m)"
  define idx where "idx = Search n (\<lambda>i. h \<le> keys m ! i)"
  have sp0: "idx \<le> n \<and> (\<forall>k<idx. \<not> h \<le> keys m ! k) \<and>
             (\<forall>k. idx \<le> k \<and> k < n \<longrightarrow> h \<le> keys m ! k)"
    unfolding idx_def n_def by (rule Search_least [OF assms])
  have sp: "idx \<le> n" "\<forall>k<idx. \<not> h \<le> keys m ! k" "\<forall>k. idx \<le> k \<and> k < n \<longrightarrow> h \<le> keys m ! k"
    using sp0 by blast+
  have G: "Get m key = lookup_peer m (keys m ! (if idx = n then 0 else idx))"
    using False by (simp add: Get_def IsEmpty_def Let_def idx_def n_def h_def)
  show ?thesis
  proof (cases "idx = n")
    case True
    with sp(2) have "\<not> (\<exists>i<n. h \<le> keys m ! i)" by simp
    with True G False show ?thesis by (auto simp: n_def h_def)
  next
    case ne: False
    with sp(1) have lt: "idx < n" by simp
    with sp(3) have at: "h \<le> keys m ! idx" by simp
    have "(LEAST i. i < n \<and> h \<le> keys m ! i) = idx"
    proof (rule Least_equality)
      show "idx < n \<and> h \<le> keys m ! idx" using lt at by simp
    next
      fix y assume y: "y < n \<and> h \<le> keys m ! y"
      show "idx \<le> y"
      proof (rule ccontr)
        assume "\<not> idx \<le> y"
        then have "y < idx" by simp
        with sp(2) have "\<not> h \<le> keys m ! y" by blast
        with y show False by simp
      qed
    qed
    moreover have "\<exists>i<n. h \<le> keys m ! i" using lt at by blast
    ultimately show ?thesis using G ne False by (simp add: n_def h_def)
  qed
qed

lemma Get_idx_bound:
  assumes "keys m \<noteq> []" and "sorted (keys m)"
  shows "Get_idx m key < length (keys m)"
proof -
  have "Search (length (keys m)) (\<lambda>i. uint (hash m key) \<le> keys m ! i) \<le> length (keys m)"
    using Search_least [OF assms(2), of "uint (hash m key)"] by blast
  with assms(1) show ?thesis
    by (simp add: Get_idx_def Let_def)
qed

section \<open>A worked ring: peers A and B, two replicas, the byte-sum hash\<close>

lemma upt2: "[0..<2] = [0, Suc 0]"
  by (simp add: upt_rec)

lemma Itoa_small: "Itoa 0 = ''0''" "Itoa 1 = ''1''"
  by code_simp+

lemma ex_vnodes:
  "vnodes bytesum 2 [''A'', ''B''] = [(113, ''A''), (114, ''A''), (114, ''B''), (115, ''B'')]"
  by (simp add: vnodes_def bytesum_def Itoa_small upt2)

lemma ex_vnodes1:
  "vnodes bytesum 1 [''A'', ''B''] = [(113, ''A''), (114, ''B'')]"
  "vnodes bytesum 1 [''B'', ''A''] = [(114, ''B''), (113, ''A'')]"
  by (simp_all add: vnodes_def bytesum_def Itoa_small)

lemma ex_keys: "keys (ring 2 (Some bytesum) [[''A'', ''B'']]) = [113, 114, 114, 115]"
  by (simp add: ring_fields New_def ex_vnodes)

lemma ex_map:
  "hashMap (ring 2 (Some bytesum) [[''A'', ''B'']]) =
     map_of [(115, ''B''), (114, ''B''), (114, ''A''), (113, ''A'')]"
  by (simp add: ring_fields New_def ex_vnodes)

lemma ex_hash: "hash (ring r (Some bytesum) adds) = bytesum"
  by (simp add: ring_fields)


lemma ex_Search:
  "Search (length [113, 114, 114, 115 :: int]) (\<lambda>i. (114::int) \<le> [113, 114, 114, 115] ! i) = 1"
proof -
  let ?f = "\<lambda>i. (114::int) \<le> [113, 114, 114, 115] ! i"
  have "SearchLoop ?f 0 4 = SearchLoop ?f 0 2"
    using SearchLoop_left [of 0 4 ?f] by simp
  also have "\<dots> = SearchLoop ?f 0 1"
    using SearchLoop_left [of 0 2 ?f] by simp
  also have "\<dots> = SearchLoop ?f 1 1"
    using SearchLoop_right [of 0 1 ?f] by simp
  also have "\<dots> = 1"
    by (simp add: SearchLoop_stop)
  finally have "SearchLoop ?f 0 4 = 1" .
  moreover have "length [113, 114, 114, 115 :: int] = 4" by simp
  ultimately show ?thesis by (simp only: Search_def)
qed

lemma ex_Get_idx_r: "Get_idx (ring 2 (Some bytesum) [[''A'', ''B'']]) ''r'' = 1"
proof -
  have h: "uint (bytesum ''r'') = 114" by (simp add: bytesum_def)
  show ?thesis
    by (simp only: Get_idx_def ex_keys ex_hash Let_def h ex_Search) simp
qed

lemma ex_Get_r: "Get (ring 2 (Some bytesum) [[''A'', ''B'']]) ''r'' = ''B''"
  by (simp add: Get_via_idx IsEmpty_def ex_Get_idx_r lookup_peer_def ex_keys ex_map)

section \<open>Claims about the consistent-hash ring\<close>

text \<open>
  Claim C5. On every ring built by \<open>New\<close> and any sequence of \<open>Add\<close> calls, \<open>Get key\<close>
  returns the empty string when the ring is empty; otherwise it takes \<open>h = hash key\<close>,
  the least index \<open>idx\<close> with \<open>ring[idx] \<ge> h\<close> (index \<open>0\<close> when no element is
  \<open>\<ge> h\<close>), and returns the peer that \<open>hashMap\<close> associates with \<open>ring[idx]\<close>.
\<close>

theorem Get_least_index:
  "Get (ring r fn adds) key =
     (let m = ring r fn adds; h = uint (hash m key); n = length (keys m)
      in if n = 0 then []
         else lookup_peer m (keys m !
                (if \<exists>i<n. h \<le> keys m ! i then (LEAST i. i < n \<and> h \<le> keys m ! i) else 0)))"
  using Get_sorted [OF ring_sorted, of r fn adds key] by (simp add: Let_def)


theorem Get_least_index_witness:
  "Get (ring 2 (Some bytesum) [[''A'', ''B'']]) ''r'' = ''B''"
proof -
  let ?ks = "[113, 114, 114, 115 :: int]"
  have L: "(LEAST i. i < length ?ks \<and> (114::int) \<le> ?ks ! i) = 1"
  proof (rule Least_equality)
    show "1 < length ?ks \<and> (114::int) \<le> ?ks ! 1"
      by simp
  next
    fix y :: nat
    assume "y < length ?ks \<and> (114::int) \<le> ?ks ! y"
    then show "1 \<le> y" by (cases y) simp_all
  qed
  have E: "(\<exists>i<length ?ks. (114::int) \<le> ?ks ! i) = True"
    by (simp only: eq_True) (rule exI [of _ 1], simp)
  have h: "uint (bytesum ''r'') = 114" by (simp add: bytesum_def)
  have "Get (ring 2 (Some bytesum) [[''A'', ''B'']]) ''r'' =
        (if length ?ks = 0 then []
         else lookup_peer (ring 2 (Some bytesum) [[''A'', ''B'']]) (?ks ! 1))"
    using Get_least_index [of 2 "Some bytesum" "[[''A'', ''B'']]" "''r''"]
    by (simp only: Let_def ex_keys ex_hash h L E if_True)
  then show ?thesis
    by (simp add: lookup_peer_def ex_map)
qed

lemma map_of_last_writer:
  assumes "c \<notin> fst ` set ys"
  shows "map_of (rev (xs @ (c, q) # ys)) c = Some q"
proof -
  have "map_of (rev ys) c = None"
    using assms by (simp add: map_of_eq_None_iff)
  then show ?thesis
    by (simp add: map_add_def)
qed

text \<open>
  Claim C3 (as amended). When virtual nodes of different peers hash to the same value
  \<open>c\<close>, the ring keeps the association written last: if \<open>q\<close> owns the last virtual
  node, in insertion order, whose hash is \<open>c\<close>, then a \<open>Get\<close> whose search selects \<open>c\<close>
  returns \<open>q\<close>. The sorted ring is the (stable) sort of all inserted hashes, so it holds
  \<open>c\<close> once for every virtual node that produced it.
\<close>

theorem Get_last_writer_wins:
  assumes "vnodes (hash (New r fn)) r (concat adds) = xs @ (c, q) # ys"
    and "c \<notin> fst ` set ys"
    and "keys (ring r fn adds) ! Get_idx (ring r fn adds) key = c"
  shows "Get (ring r fn adds) key = q \<and>
         keys (ring r fn adds) = sort (map fst (xs @ (c, q) # ys))"
proof -
  have k: "keys (ring r fn adds) = sort (map fst (xs @ (c, q) # ys))"
    using assms(1) by (simp add: ring_fields)
  have "length (keys (ring r fn adds)) = length (xs @ (c, q) # ys)"
    unfolding k by simp
  then have ne: "\<not> IsEmpty (ring r fn adds)"
    by (simp add: IsEmpty_def)
  have "hashMap (ring r fn adds) c = Some q"
    using assms(1) map_of_last_writer [OF assms(2), of xs q] by (simp add: ring_fields)
  then have "lookup_peer (ring r fn adds) c = q"
    by (simp add: lookup_peer_def)
  with ne assms(3) have "Get (ring r fn adds) key = q"
    by (simp add: Get_via_idx)
  with k show ?thesis by simp
qed

theorem Get_last_writer_wins_witness:
  "Get (ring 2 (Some bytesum) [[''A'', ''B'']]) ''r'' = ''B'' \<and>
   keys (ring 2 (Some bytesum) [[''A'', ''B'']]) = [113, 114, 114, 115]"
proof -
  have v: "vnodes (hash (New 2 (Some bytesum))) 2 (concat [[''A'', ''B'']]) =
           [(113, ''A''), (114, ''A'')] @ (114, ''B'') # [(115, ''B'')]"
    by (simp add: New_def ex_vnodes)
  have n: "(114::int) \<notin> fst ` set [(115, ''B'')]"
    by simp
  have s: "keys (ring 2 (Some bytesum) [[''A'', ''B'']]) !
             Get_idx (ring 2 (Some bytesum) [[''A'', ''B'']]) ''r'' = 114"
    by (simp add: ex_Get_idx_r ex_keys)
  show ?thesis
    using Get_last_writer_wins [OF v n s] by simp
qed

theorem first_writer_counterexample:
  "vnodes bytesum 2 [''A'', ''B''] = [(113, ''A''), (114, ''A''), (114, ''B''), (115, ''B'')] \<and>
   keys (ring 2 (Some bytesum) [[''A'', ''B'']]) !
     Get_idx (ring 2 (Some bytesum) [[''A'', ''B'']]) ''r'' = 114 \<and>
   Get (ring 2 (Some bytesum) [[''A'', ''B'']]) ''r'' \<noteq> ''A''"
  by (simp add: ex_vnodes ex_Get_idx_r ex_keys ex_Get_r)


lemma mset_vnodes:
  "mset (vnodes hf r ps) =
     (\<Sum>p\<in>#mset ps. mset (map (\<lambda>i. (uint (hf (Itoa (int i) @ p)), p)) [0..<nat r]))"
  by (induction ps) (simp_all add: vnodes_def)

lemma mset_vnodes_cong:
  "mset ps = mset qs \<Longrightarrow> mset (vnodes hf r ps) = mset (vnodes hf r qs)"
  by (simp add: mset_vnodes)

lemma map_of_functional_eq:
  assumes s: "set xs = set ys"
    and f: "\<forall>(c, p)\<in>set xs. \<forall>(c', p')\<in>set xs. c = c' \<longrightarrow> p = p'"
  shows "map_of xs = map_of ys"
proof
  fix c
  show "map_of xs c = map_of ys c"
  proof (cases "map_of xs c")
    case None
    then have "c \<notin> fst ` set ys" using s by (simp add: map_of_eq_None_iff)
    then have "map_of ys c = None" by (simp add: map_of_eq_None_iff)
    with None show ?thesis by simp
  next
    case (Some p)
    then have in1: "(c, p) \<in> set xs" by (rule map_of_SomeD)
    then have "c \<in> fst ` set ys" using s by force
    then obtain p' where y: "map_of ys c = Some p'"
      by (cases "map_of ys c") (simp_all add: map_of_eq_None_iff)
    then have "(c, p') \<in> set xs" using s by (auto dest: map_of_SomeD)
    with in1 f have "p = p'" by blast
    with Some y show ?thesis by simp
  qed
qed

lemma ring_order_independent:
  assumes m: "mset (concat adds1) = mset (concat adds2)"
    and nc: "\<forall>(c, p)\<in>set (vnodes (hash (New r fn)) r (concat adds1)).
             \<forall>(c', p')\<in>set (vnodes (hash (New r fn)) r (concat adds1)). c = c' \<longrightarrow> p = p'"
  shows "ring r fn adds1 = ring r fn adds2"
proof -
  let ?v1 = "vnodes (hash (New r fn)) r (concat adds1)"
  let ?v2 = "vnodes (hash (New r fn)) r (concat adds2)"
  have mv: "mset ?v1 = mset ?v2"
    using m by (rule mset_vnodes_cong)
  then have "mset (map fst ?v1) = mset (map fst ?v2)"
    by (metis mset_map)
  then have k: "sort (map fst ?v1) = sort (map fst ?v2)"
    by (simp add: properties_for_sort)
  have sv: "set (rev ?v1) = set (rev ?v2)"
    using mv by (metis set_mset_mset set_rev)
  have "map_of (rev ?v1) = map_of (rev ?v2)"
    using sv nc by (intro map_of_functional_eq) simp_all
  with k show ?thesis
    by (intro Map.equality) (simp_all add: ring_fields)
qed

text \<open>
  Claim C6. Two sequences of \<open>Add\<close> calls that insert the same multiset of peers into
  rings with the same replicas and hash function give the same answer to every \<open>Get\<close>,
  provided no two different peers have virtual nodes with the same hash.
\<close>

theorem Get_order_independent:
  assumes "mset (concat adds1) = mset (concat adds2)"
    and "\<forall>(c, p)\<in>set (vnodes (hash (New r fn)) r (concat adds1)).
         \<forall>(c', p')\<in>set (vnodes (hash (New r fn)) r (concat adds1)). c = c' \<longrightarrow> p = p'"
  shows "Get (ring r fn adds1) key = Get (ring r fn adds2) key"
  using ring_order_independent [OF assms] by simp

theorem Get_order_independent_witness:
  "Get (ring 1 (Some bytesum) [[''A''], [''B'']]) ''r'' =
   Get (ring 1 (Some bytesum) [[''B'', ''A'']]) ''r''"
proof -
  have m: "mset (concat [[''A''], [''B'']]) = mset (concat [[''B'', ''A'']])"
    by simp
  have v: "vnodes (hash (New 1 (Some bytesum))) 1 (concat [[''A''], [''B'']]) =
           [(113, ''A''), (114, ''B'')]"
    by (simp add: New_def ex_vnodes1)
  have nc: "\<forall>(c, p)\<in>set (vnodes (hash (New 1 (Some bytesum))) 1 (concat [[''A''], [''B'']])).
            \<forall>(c', p')\<in>set (vnodes (hash (New 1 (Some bytesum))) 1 (concat [[''A''], [''B'']])).
              c = c' \<longrightarrow> p = p'"
    unfolding v by simp
  show ?thesis
    using Get_order_independent [OF m nc] .
qed


section \<open>Claims about peer picking\<close>

text \<open>
  Claim C9. While no picker has been installed (\<open>portPicker\<close> is nil, as at program
  start), \<open>getPeers\<close> returns \<open>NoPeers\<close> for every group name, and its \<open>PickPeer\<close>
  returns \<open>(nil, false)\<close> for every key: the local process owns every key.
\<close>

theorem getPeers_NoPeers:
  assumes "portPicker g = None"
  shows "getPeers g groupName = NoPeers \<and>
         PickPeer_of impl (getPeers g groupName) key = (None, False)"
  using assms by (simp add: getPeers_def PickPeer_of_def)

theorem getPeers_NoPeers_witness:
  "getPeers init_globals ''g'' = (NoPeers :: nat PeerPicker) \<and>
   PickPeer_of (\<lambda>(p::nat) k. (Some (0::nat), True)) (getPeers init_globals ''g'') ''k'' = (None, False)"
proof -
  have "portPicker (init_globals :: nat globals) = None"
    by (simp add: init_globals_def)
  then show ?thesis by (rule getPeers_NoPeers)
qed

lemma foldl_getters:
  "foldl (\<lambda>g peer. g(peer \<mapsto> F peer)) g0 ps x =
     (if x \<in> set ps then Some (F x) else g0 x)"
  by (induction ps arbitrary: g0) auto

lemma Get_member:
  assumes "keys (ring r fn adds) \<noteq> []"
  shows "Get (ring r fn adds) key \<in> set (concat adds)"
proof -
  let ?m = "ring r fn adds"
  let ?v = "vnodes (hash (New r fn)) r (concat adds)"
  have "Get_idx ?m key < length (keys ?m)"
    using assms ring_sorted by (rule Get_idx_bound)
  then have "keys ?m ! Get_idx ?m key \<in> set (keys ?m)"
    by (rule nth_mem)
  then have "keys ?m ! Get_idx ?m key \<in> fst ` set (rev ?v)"
    by (simp add: ring_fields)
  then obtain p where p: "map_of (rev ?v) (keys ?m ! Get_idx ?m key) = Some p"
    by (cases "map_of (rev ?v) (keys ?m ! Get_idx ?m key)") (simp_all add: map_of_eq_None_iff)
  then have "(keys ?m ! Get_idx ?m key, p) \<in> set (rev ?v)"
    by (rule map_of_SomeD)
  then have "p \<in> set (concat adds)"
    by (auto simp: vnodes_def)
  moreover have "Get ?m key = p"
  proof -
    have ne: "\<not> IsEmpty ?m" using assms by (simp add: IsEmpty_def)
    have "hashMap ?m (keys ?m ! Get_idx ?m key) = Some p"
      using p by (simp only: ring_fields(4))
    then have "lookup_peer ?m (keys ?m ! Get_idx ?m key) = p"
      by (simp add: lookup_peer_def)
    with ne show ?thesis by (simp add: Get_via_idx)
  qed
  ultimately show ?thesis by simp
qed


lemma Set_fields:
  "peers (Set p ps) = ring (Replicas (opts p)) (HashFn (opts p)) [ps]"
  "httpGetters (Set p ps) x =
     (if x \<in> set ps then Some \<lparr>transport = Transport p, baseURL = x @ BasePath (opts p)\<rparr> else None)"
  "self (Set p ps) = self p"
  "opts (Set p ps) = opts p"
  by (simp_all add: Set_def ring_def foldl_getters)

text \<open>
  Claim C8. \<open>PickPeer key\<close> returns \<open>(httpGetters[owner], true)\<close> for the owner
  \<open>Get key\<close> exactly when the ring is non-empty and the owner differs from \<open>self\<close>, and
  \<open>(nil, false)\<close> in every other case. On a pool whose peers were installed by \<open>Set\<close>,
  the getter returned with \<open>true\<close> is the one \<open>Set\<close> made for the owner: non-nil, with
  base URL \<open>owner + BasePath\<close>.
\<close>

theorem PickPeer_remote_iff:
  "PickPeer p key =
     (if \<not> IsEmpty (peers p) \<and> Get (peers p) key \<noteq> self p
      then (httpGetters p (Get (peers p) key), True)
      else (None, False)) \<and>
   (snd (PickPeer p key) \<longleftrightarrow> \<not> IsEmpty (peers p) \<and> Get (peers p) key \<noteq> self p) \<and>
   (p = Set p0 ps \<and> snd (PickPeer p key) \<longrightarrow>
      Get (peers p) key \<in> set ps \<and>
      fst (PickPeer p key) =
        Some \<lparr>transport = Transport p0, baseURL = Get (peers p) key @ BasePath (opts p0)\<rparr>)"
proof -
  have a: "PickPeer p key =
     (if \<not> IsEmpty (peers p) \<and> Get (peers p) key \<noteq> self p
      then (httpGetters p (Get (peers p) key), True)
      else (None, False))"
    by (simp add: PickPeer_def Let_def)
  have b: "snd (PickPeer p key) \<longleftrightarrow> \<not> IsEmpty (peers p) \<and> Get (peers p) key \<noteq> self p"
    by (simp add: a)
  have c: "Get (peers p) key \<in> set ps \<and>
      fst (PickPeer p key) =
        Some \<lparr>transport = Transport p0, baseURL = Get (peers p) key @ BasePath (opts p0)\<rparr>"
    if eq: "p = Set p0 ps" and ok: "snd (PickPeer p key)"
  proof -
    let ?m = "ring (Replicas (opts p0)) (HashFn (opts p0)) [ps]"
    have pm: "peers p = ?m" using eq by (simp add: Set_fields)
    have ne: "keys ?m \<noteq> []" using ok b pm by (simp add: IsEmpty_def)
    have "Get ?m key \<in> set (concat [ps])" using ne by (rule Get_member)
    then have mem: "Get (peers p) key \<in> set ps" using pm by simp
    have "fst (PickPeer p key) = httpGetters p (Get (peers p) key)"
      using ok b by (simp add: a)
    with mem eq show ?thesis by (simp add: Set_fields)
  qed
  from a b c show ?thesis by blast
qed


lemma ex_pool_made:
  "NewHTTPPoolOpts (0::nat) ''A''
     (Some \<lparr>BasePath = [], Replicas = 2, HashFn = Some bytesum\<rparr>) init_globals =
   Inr (ex_pool, \<lparr>portPicker = Some (\<lambda>_. Some (Picker 0)), httpPoolMade = True\<rparr>)"
  by (simp add: NewHTTPPoolOpts_def init_globals_def RegisterPeerPicker_def ex_pool_def
      defaultBasePath_def Let_def)

theorem PickPeer_remote_iff_witness:
  "PickPeer (Set ex_pool [''A'', ''B'']) ''r'' =
     (Some \<lparr>transport = None, baseURL = ''B/_groupcache/''\<rparr>, True)"
proof -
  let ?p = "Set ex_pool [''A'', ''B'']"
  have pm: "peers ?p = ring 2 (Some bytesum) [[''A'', ''B'']]"
    by (simp add: Set_fields ex_pool_def)
  have g: "Get (peers ?p) ''r'' = ''B''"
    by (simp only: pm ex_Get_r)
  have ne: "\<not> IsEmpty (peers ?p)"
    by (simp add: pm IsEmpty_def ex_keys)
  have s: "self ?p = ''A''"
    by (simp add: Set_fields ex_pool_def)
  note t = PickPeer_remote_iff [of ?p "''r''" ex_pool "[''A'', ''B'']"]
  have ok: "snd (PickPeer ?p ''r'')"
    using t g ne s by simp
  with t have "fst (PickPeer ?p ''r'') =
      Some \<lparr>transport = Transport ex_pool, baseURL = Get (peers ?p) ''r'' @ BasePath (opts ex_pool)\<rparr>"
    by blast
  moreover have "Transport ex_pool = None" "BasePath (opts ex_pool) = ''/_groupcache/''"
    by (simp_all add: ex_pool_def)
  ultimately have "fst (PickPeer ?p ''r'') = Some \<lparr>transport = None, baseURL = ''B/_groupcache/''\<rparr>"
    by (simp only: g) simp
  with ok show ?thesis
    by (cases "PickPeer ?p ''r''") simp
qed

section \<open>The store: cloning and copying\<close>

lemma contents_append:
  "valid h b \<Longrightarrow> contents (h @ xs) b = contents h b"
  by (cases b) (simp_all add: contents_def valid_def nth_append)

lemma length_contents:
  "valid h b \<Longrightarrow> length (contents h b) = slen b"
  by (cases b) (auto simp: contents_def valid_def slen_def)

lemma cloneBytes_shape:
  "\<exists>xs. length xs = slen b \<and>
        cloneBytes h b = (h @ [xs], Some \<lparr>arr = length h, off = 0, len = slen b, cap = slen b\<rparr>) \<and>
        (valid h b \<longrightarrow> xs = contents h b)"
proof -
  let ?z = "replicate (slen b) (CHR 0x00)"
  let ?src = "contents (h @ [?z]) b"
  let ?n = "min (slen b) (length ?src)"
  let ?xs = "take ?n ?src @ drop ?n ?z"
  have c: "cloneBytes h b =
           (h @ [?xs], Some \<lparr>arr = length h, off = 0, len = slen b, cap = slen b\<rparr>)"
    by (simp add: cloneBytes_def make_bytes_def copy_def Let_def)
  have l: "length ?xs = slen b"
    by simp
  have v: "?xs = contents h b" if "valid h b"
  proof -
    have "?src = contents h b" using that by (rule contents_append)
    moreover have "length (contents h b) = slen b" using that by (rule length_contents)
    ultimately show ?thesis by simp
  qed
  from c l v show ?thesis by blast
qed

lemma contents_fresh:
  "contents (h @ [xs]) (Some \<lparr>arr = length h, off = 0, len = length xs, cap = length xs\<rparr>) = xs"
  by (simp add: contents_def)

lemma copy_shape:
  "\<exists>h'. copy h d src = (h', min (slen d) (length src)) \<and> length h' = length h \<and>
        (\<forall>a. (\<forall>s. d = Some s \<longrightarrow> a \<noteq> arr s) \<longrightarrow> h' ! a = h ! a)"
  by (cases d) (simp_all add: copy_def slen_def Let_def)

lemma slen_reslice: "slen (if n < slen d then reslice d n else d) = (if n < slen d then n else slen d)"
  by (cases d) (simp_all add: slen_def reslice_def)


lemma trunc_setBytesOwned:
  "\<exists>h' d'. setBytesOwned (truncBytesSink (Some d) v) c h =
            Inr (None, truncBytesSink (Some d') (v\<lparr>bv_b := c, bv_s := []\<rparr>), h') \<and>
          slen d' = min (slen d) (length (contents h c)) \<and> length h' = length h \<and>
          (\<forall>a. (\<forall>s. d = Some s \<longrightarrow> a \<noteq> arr s) \<longrightarrow> h' ! a = h ! a)"
proof -
  obtain h' where cp: "copy h d (contents h c) = (h', min (slen d) (length (contents h c)))"
    and l: "length h' = length h"
    and f: "\<forall>a. (\<forall>s. d = Some s \<longrightarrow> a \<noteq> arr s) \<longrightarrow> h' ! a = h ! a"
    using copy_shape [of h d "contents h c"] by blast
  let ?n = "min (slen d) (length (contents h c))"
  let ?d = "if ?n < slen d then reslice d ?n else d"
  have "setBytesOwned (truncBytesSink (Some d) v) c h =
        Inr (None, truncBytesSink (Some ?d) (v\<lparr>bv_b := c, bv_s := []\<rparr>), h')"
    by (simp add: cp Let_def)
  moreover have "slen ?d = ?n"
    by (simp only: slen_reslice) simp
  ultimately show ?thesis using l f by blast
qed

lemma ex_trunc_SetBytes:
  "SetBytes ex_proto (TruncatingByteSliceSink (Some ex_dst)) ex_hello ex_heap =
     Inr (None,
          truncBytesSink (Some (Some \<lparr>arr = 0, off = 0, len = 2, cap = 10\<rparr>))
            \<lparr>bv_b = Some \<lparr>arr = 2, off = 0, len = 5, cap = 5\<rparr>, bv_s = []\<rparr>,
          [''he'' @ replicate 8 (CHR 0x00), ''hello'', ''hello''])"
  by (simp add: TruncatingByteSliceSink_def zero_view_def ex_dst_def ex_hello_def ex_heap_def
      cloneBytes_def make_bytes_def copy_def contents_def slen_def reslice_def Let_def)

lemma ex_valid: "valid ex_heap ex_hello" "valid ex_heap ex_dst"
  by (simp_all add: valid_def ex_heap_def ex_hello_def ex_dst_def)

section \<open>Claims about sinks\<close>

text \<open>
  Claim C2 (as amended). For a \<open>TruncatingByteSliceSink\<close> over a non-nil destination
  pointer, \<open>SetBytes(b)\<close> succeeds and leaves \<open>len(*dst) = min(len(b), len(*dst before))\<close>:
  the bound is the length of the destination, not its capacity.
\<close>

theorem trunc_SetBytes_len:
  fixes P :: "'m proto"
  shows "\<exists>h' d' v'. SetBytes P (truncBytesSink (Some d) v) b h =
               Inr (None, truncBytesSink (Some d') v', h') \<and>
             slen d' = min (slen b) (slen d)"
proof -
  obtain xs where x: "length xs = slen b"
    and c: "cloneBytes h b = (h @ [xs], Some \<lparr>arr = length h, off = 0, len = slen b, cap = slen b\<rparr>)"
    using cloneBytes_shape [of b h] by blast
  let ?c = "Some \<lparr>arr = length h, off = 0, len = slen b, cap = slen b\<rparr>"
  have cc: "contents (h @ [xs]) ?c = xs"
    using contents_fresh [of h xs] by (simp only: x)
  obtain h' d' where
    s: "setBytesOwned (truncBytesSink (Some d) v :: 'm Sink) ?c (h @ [xs]) =
        Inr (None, truncBytesSink (Some d') (v\<lparr>bv_b := ?c, bv_s := []\<rparr>), h')"
    and l: "slen d' = min (slen d) (length (contents (h @ [xs]) ?c))"
    using trunc_setBytesOwned [of d v ?c "h @ [xs]", where ?'a = 'm] by blast
  have "SetBytes P (truncBytesSink (Some d) v) b h =
        Inr (None, truncBytesSink (Some d') (v\<lparr>bv_b := ?c, bv_s := []\<rparr>), h')"
    unfolding SetBytes.simps c Let_def split by (rule s)
  moreover have "slen d' = min (slen b) (slen d)"
    using l by (simp add: cc x min.commute)
  ultimately show ?thesis by blast
qed

theorem trunc_SetBytes_cap_counterexample:
  "SetBytes ex_proto (TruncatingByteSliceSink (Some ex_dst)) ex_hello ex_heap =
     Inr (None,
          truncBytesSink (Some (Some \<lparr>arr = 0, off = 0, len = 2, cap = 10\<rparr>))
            \<lparr>bv_b = Some \<lparr>arr = 2, off = 0, len = 5, cap = 5\<rparr>, bv_s = []\<rparr>,
          [''he'' @ replicate 8 (CHR 0x00), ''hello'', ''hello'']) \<and>
   slen (Some \<lparr>arr = 0, off = 0, len = 2, cap = 10\<rparr>) \<noteq> min (slen ex_hello) (scap ex_dst)"
  by (simp add: TruncatingByteSliceSink_def zero_view_def ex_dst_def ex_hello_def ex_heap_def
      cloneBytes_def make_bytes_def copy_def contents_def slen_def scap_def reslice_def Let_def)


theorem trunc_SetBytes_len_witness:
  "\<exists>h' d' v'. SetBytes ex_proto (truncBytesSink (Some ex_dst) zero_view) ex_hello ex_heap =
               Inr (None, truncBytesSink (Some d') v', h') \<and>
             slen d' = 2"
  using trunc_SetBytes_len [of ex_proto ex_dst zero_view ex_hello ex_heap]
  by (simp add: slen_def ex_hello_def ex_dst_def)

text \<open>
  Claim C10. On an \<open>AllocatingByteSliceSink\<close> or \<open>TruncatingByteSliceSink\<close> whose
  destination pointer is nil, \<open>SetBytes\<close>, \<open>SetString\<close> and, once the message has been
  marshalled, \<open>SetProto\<close> return a non-nil error and leave the sink as it was; a later
  \<open>view()\<close> returns the same \<open>ByteView\<close>, holding the same bytes.
\<close>

theorem nil_dst_setters_fail:
  fixes P :: "'m proto" and snk :: "'m Sink"
  assumes "snk = allocBytesSink None v \<or> snk = truncBytesSink None v"
  shows "(\<exists>e h'. SetBytes P snk b h = Inr (Some e, snk, h') \<and>
                  (valid h (bv_b v) \<longrightarrow> ByteSlice h' (view snk) = ByteSlice h v)) \<and>
         (\<exists>e. SetString P snk x h = Inr (Some e, snk, h)) \<and>
         (\<forall>enc. Marshal P m = Inr enc \<longrightarrow>
            (\<exists>e h'. SetProto P snk m h = Inr (Some e, snk, h') \<and>
                     (valid h (bv_b v) \<longrightarrow> ByteSlice h' (view snk) = ByteSlice h v))) \<and>
         view snk = v"
proof -
  obtain xs where c: "cloneBytes h b =
      (h @ [xs], Some \<lparr>arr = length h, off = 0, len = slen b, cap = slen b\<rparr>)"
    using cloneBytes_shape [of b h] by blast
  have keep: "ByteSlice (h @ ys) v = ByteSlice h v" if "valid h (bv_b v)" for ys
  proof (cases "bv_b v")
    case None
    then show ?thesis by (simp add: ByteSlice_def)
  next
    case (Some s)
    with that have "contents (h @ ys) (Some s) = contents h (Some s)"
      by (simp add: contents_append)
    with Some show ?thesis by (simp add: ByteSlice_def)
  qed
  from assms show ?thesis
  proof
    assume s: "snk = allocBytesSink None v"
    show ?thesis
      unfolding s using keep
      by (simp add: c bytes_of_string_def Let_def)
  next
    assume s: "snk = truncBytesSink None v"
    show ?thesis
      unfolding s using keep
      by (simp add: c bytes_of_string_def Let_def)
  qed
qed

theorem nil_dst_setters_fail_witness:
  "(\<exists>e h'. SetBytes ex_proto (TruncatingByteSliceSink None) ex_hello ex_heap =
             Inr (Some e, TruncatingByteSliceSink None, h')) \<and>
   (\<exists>e. SetString ex_proto (TruncatingByteSliceSink None) ''hello'' ex_heap =
          Inr (Some e, TruncatingByteSliceSink None, ex_heap)) \<and>
   (\<exists>e h'. SetProto ex_proto (TruncatingByteSliceSink None) ''hello'' ex_heap =
             Inr (Some e, TruncatingByteSliceSink None, h')) \<and>
   view (TruncatingByteSliceSink None :: string Sink) = zero_view"
proof -
  have a: "(TruncatingByteSliceSink None :: string Sink) = allocBytesSink None zero_view \<or>
           (TruncatingByteSliceSink None :: string Sink) = truncBytesSink None zero_view"
    by (simp add: TruncatingByteSliceSink_def)
  have m: "Marshal ex_proto ''hello'' = Inr ''hello''"
    by (simp add: ex_proto_def)
  show ?thesis
    using nil_dst_setters_fail [OF a, of ex_proto ex_hello ex_heap "''hello''" "''hello''"] m
    by blast
qed


text \<open>A view on the fresh clone of \<open>b\<close> reads the bytes of \<open>b\<close>, in every store that
  still has the clone in place.\<close>

lemma clone_view:
  assumes "valid h b" and "hh ! length h = contents h b"
  shows "ByteSlice hh (v\<lparr>bv_b := Some \<lparr>arr = length h, off = 0, len = slen b, cap = slen b\<rparr>,
                          bv_s := []\<rparr>) = contents h b"
proof -
  have "length (contents h b) = slen b" using assms(1) by (rule length_contents)
  then show ?thesis using assms(2) by (simp add: ByteSlice_def contents_def)
qed

lemma clone_view_both:
  assumes vb: "valid h b" and at: "hh ! length h = contents h b"
  shows "ByteSlice hh (v\<lparr>bv_b := Some \<lparr>arr = length h, off = 0, len = slen b, cap = slen b\<rparr>,
                          bv_s := []\<rparr>) = contents h b \<and>
         (\<forall>s xs. b = Some s \<longrightarrow>
            ByteSlice (hh[arr s := xs])
              (v\<lparr>bv_b := Some \<lparr>arr = length h, off = 0, len = slen b, cap = slen b\<rparr>,
                 bv_s := []\<rparr>) = contents h b)"
proof (intro conjI allI impI)
  show "ByteSlice hh (v\<lparr>bv_b := Some \<lparr>arr = length h, off = 0, len = slen b, cap = slen b\<rparr>,
                          bv_s := []\<rparr>) = contents h b"
    using vb at by (rule clone_view)
next
  fix s xs assume b: "b = Some s"
  with vb have "arr s < length h" by (simp add: valid_def)
  then have "hh[arr s := xs] ! length h = hh ! length h" by simp
  with at have "hh[arr s := xs] ! length h = contents h b" by simp
  with vb show "ByteSlice (hh[arr s := xs])
              (v\<lparr>bv_b := Some \<lparr>arr = length h, off = 0, len = slen b, cap = slen b\<rparr>,
                 bv_s := []\<rparr>) = contents h b"
    by (rule clone_view)
qed

lemma cloneBytes_valid:
  assumes "valid h b"
  shows "cloneBytes h b =
           (h @ [contents h b], Some \<lparr>arr = length h, off = 0, len = slen b, cap = slen b\<rparr>)"
  using cloneBytes_shape [of b h] assms by auto

text \<open>
  Claim C4 (as amended). For each of the five sinks and every byte slice \<open>b\<close>, when
  \<open>SetBytes(b)\<close> returns a nil error, \<open>view()\<close> yields a \<open>ByteView\<close> whose bytes are those
  \<open>b\<close> had at the call, and writing to the array of \<open>b\<close> afterwards does not change them.
\<close>

theorem SetBytes_view:
  fixes P :: "'m proto" and snk snk' :: "'m Sink"
  assumes ok: "SetBytes P snk b h = Inr (None, snk', h')"
    and vb: "valid h b" and vs: "sink_valid h snk"
  shows "ByteSlice h' (view snk') = contents h b \<and>
         (\<forall>s xs. b = Some s \<longrightarrow> ByteSlice (h'[arr s := xs]) (view snk') = contents h b)"
proof -
  let ?c = "Some \<lparr>arr = length h, off = 0, len = slen b, cap = slen b\<rparr>"
  let ?h1 = "h @ [contents h b]"
  note cl = cloneBytes_valid [OF vb]
  have at1: "?h1 ! length h = contents h b" by simp
  show ?thesis
  proof (cases snk)
    case (stringSink sp v)
    with ok obtain old where "sp = Some old" by (cases sp) simp_all
    with ok stringSink
    have "snk' = stringSink (Some (contents h b)) (v\<lparr>bv_b := None, bv_s := contents h b\<rparr>)"
      by auto
    then show ?thesis by (simp add: ByteSlice_def)
  next
    case (byteViewSink dst)
    with ok cl have r: "snk' = byteViewSink (zero_view\<lparr>bv_b := ?c, bv_s := []\<rparr>)" "h' = ?h1"
      by (simp_all add: zero_view_def)
    show ?thesis
      unfolding r view.simps using vb at1 by (rule clone_view_both)
  next
    case (protoSink dst ty v)
    with ok obtain dst1 where u: "Unmarshal P (contents h b) dst = Inr dst1"
      by (cases "Unmarshal P (contents h b) dst") simp_all
    with ok cl protoSink
    have r: "snk' = protoSink dst1 ty (v\<lparr>bv_b := ?c, bv_s := []\<rparr>)" "h' = ?h1"
      by simp_all
    show ?thesis
      unfolding r view.simps using vb at1 by (rule clone_view_both)
  next
    case (allocBytesSink dst v)
    with ok cl obtain d where d: "dst = Some d" by (cases dst) simp_all
    obtain ys where c2: "cloneBytes ?h1 ?c =
        (?h1 @ [ys], Some \<lparr>arr = length ?h1, off = 0, len = slen ?c, cap = slen ?c\<rparr>)"
      using cloneBytes_shape [of ?c ?h1] by blast
    from ok cl allocBytesSink d c2
    have r: "view snk' = v\<lparr>bv_b := ?c, bv_s := []\<rparr>" "h' = ?h1 @ [ys]"
      by auto
    have at: "(?h1 @ [ys]) ! length h = contents h b" by (simp add: nth_append)
    show ?thesis
      unfolding r using vb at by (rule clone_view_both)
  next
    case (truncBytesSink dst v)
    with ok cl obtain d where d: "dst = Some d" by (cases dst) simp_all
    obtain h2 d' where
      s: "setBytesOwned (truncBytesSink (Some d) v :: 'm Sink) ?c ?h1 =
          Inr (None, truncBytesSink (Some d') (v\<lparr>bv_b := ?c, bv_s := []\<rparr>), h2)"
      and f: "\<forall>a. (\<forall>s. d = Some s \<longrightarrow> a \<noteq> arr s) \<longrightarrow> h2 ! a = ?h1 ! a"
      using trunc_setBytesOwned [of d v ?c ?h1, where ?'a = 'm] by blast
    have "SetBytes P snk b h = setBytesOwned (truncBytesSink (Some d) v :: 'm Sink) ?c ?h1"
      unfolding truncBytesSink d SetBytes.simps cl Let_def split ..
    with ok s have r: "view snk' = v\<lparr>bv_b := ?c, bv_s := []\<rparr>" "h' = h2"
      by auto
    have "\<forall>s. d = Some s \<longrightarrow> length h \<noteq> arr s"
      using vs truncBytesSink d by (auto simp: valid_def)
    with f have "h2 ! length h = ?h1 ! length h" by blast
    then have at: "h2 ! length h = contents h b" by simp
    show ?thesis
      unfolding r using vb at by (rule clone_view_both)
  qed
qed


theorem SetBytes_view_witness:
  "ByteSlice [''he'' @ replicate 8 (CHR 0x00), ''hello'', ''hello'']
     \<lparr>bv_b = Some \<lparr>arr = 2, off = 0, len = 5, cap = 5\<rparr>, bv_s = []\<rparr> = ''hello'' \<and>
   ByteSlice ([''he'' @ replicate 8 (CHR 0x00), ''hello'', ''hello''][1 := ''HELLO''])
     \<lparr>bv_b = Some \<lparr>arr = 2, off = 0, len = 5, cap = 5\<rparr>, bv_s = []\<rparr> = ''hello''"
proof -
  have vs: "sink_valid ex_heap (TruncatingByteSliceSink (Some ex_dst) :: string Sink)"
    using ex_valid(2) by (simp add: TruncatingByteSliceSink_def zero_view_def valid_def)
  have c: "contents ex_heap ex_hello = ''hello''"
    by (simp add: contents_def ex_heap_def ex_hello_def)
  have e: "ex_hello = Some \<lparr>arr = 1, off = 0, len = 5, cap = 5\<rparr>"
    by (simp add: ex_hello_def)
  note t = SetBytes_view [OF ex_trunc_SetBytes ex_valid(1) vs]
  have a: "ByteSlice [''he'' @ replicate 8 (CHR 0x00), ''hello'', ''hello'']
     \<lparr>bv_b = Some \<lparr>arr = 2, off = 0, len = 5, cap = 5\<rparr>, bv_s = []\<rparr> = ''hello''"
    using t [THEN conjunct1] c by simp
  have b: "ByteSlice ([''he'' @ replicate 8 (CHR 0x00), ''hello'', ''hello''][1 := ''HELLO''])
     \<lparr>bv_b = Some \<lparr>arr = 2, off = 0, len = 5, cap = 5\<rparr>, bv_s = []\<rparr> = ''hello''"
    using t [THEN conjunct2, rule_format, OF e, of "''HELLO''"] c by simp
  from a b show ?thesis ..
qed

theorem SetBytes_error_counterexample:
  "SetBytes ex_proto (TruncatingByteSliceSink None) ex_hello ex_heap =
     Inr (Some (Err ''nil TruncatingByteSliceSink *[]byte dst''),
          TruncatingByteSliceSink None, ex_heap @ [''hello'']) \<and>
   contents ex_heap ex_hello = ''hello'' \<and>
   ByteSlice (ex_heap @ [''hello'']) (view (TruncatingByteSliceSink None :: string Sink)) = [] \<and>
   ByteSlice (ex_heap @ [''hello'']) (view (TruncatingByteSliceSink None :: string Sink)) \<noteq>
     contents ex_heap ex_hello"
  by (simp add: TruncatingByteSliceSink_def zero_view_def ex_hello_def ex_heap_def
      cloneBytes_def make_bytes_def copy_def contents_def slen_def ByteSlice_def Let_def)

section \<open>Single flight: the steps of Do\<close>

lemma goto_fields [simp]:
  "g_mu (goto t p s) = g_mu s"
  "g_m (goto t p s) = g_m s"
  "g_calls (goto t p s) = g_calls s"
  "callers (goto t p s) u = (if u = t then (callers s t)\<lparr>t_pc := p\<rparr> else callers s u)"
  "inflight (goto t p s) k = inflight s k"
  by (simp_all add: goto_def inflight_def)

lemma upd_call_fields [simp]:
  "g_mu (upd_call c f s) = g_mu s"
  "g_m (upd_call c f s) = g_m s"
  "g_calls (upd_call c f s) = (g_calls s)[c := f (g_calls s ! c)]"
  "callers (upd_call c f s) = callers s"
  "inflight (upd_call c f s) k = inflight s k"
  by (simp_all add: upd_call_def inflight_def)

lemma inflight_simps [simp]:
  "inflight (s\<lparr>g_mu := x\<rparr>) k = inflight s k"
  "inflight (s\<lparr>g_calls := y\<rparr>) k = inflight s k"
  "inflight (s\<lparr>callers := z\<rparr>) k = inflight s k"
  "inflight (s\<lparr>g_m := Some mp\<rparr>) k = mp k"
  by (simp_all add: inflight_def)

lemma owns_pioneer: "owns p = Some c \<Longrightarrow> pioneer_of p = Some c"
  by (cases p) simp_all

lemma owns_holds: "owns p = Some c \<Longrightarrow> \<not> before_store p"
  by (cases p) simp_all

text \<open>The step of a caller, program counter by program counter.\<close>

lemma Do_step_cases:
  assumes "Do_step t r s = Some s'"
  obtains
    (L48) "t_pc (callers s t) = L48" "g_mu s = None" "s' = goto t L49 (s\<lparr>g_mu := Some t\<rparr>)"
  | (L49) "t_pc (callers s t) = L49"
          "s' = goto t L53 (if g_m s = None then s\<lparr>g_m := Some Map.empty\<rparr> else s)"
  | (L53f) c where "t_pc (callers s t) = L53" "inflight s (t_key (callers s t)) = Some c"
          "s' = goto t (L54 c) s"
  | (L53p) "t_pc (callers s t) = L53" "inflight s (t_key (callers s t)) = None"
          "s' = goto t L60 s"
  | (L54) c where "t_pc (callers s t) = L54 c" "s' = goto t (L55 c) (s\<lparr>g_mu := None\<rparr>)"
  | (L55) c where "t_pc (callers s t) = L55 c" "c_wg (g_calls s ! c) = 0" "s' = goto t (L57 c) s"
  | (L57) c where "t_pc (callers s t) = L57 c"
          "s' = goto t (RetF c (c_val (g_calls s ! c), c_err (g_calls s ! c))) s"
  | (L60) "t_pc (callers s t) = L60"
          "s' = goto t (L62 (length (g_calls s)))
                  (s\<lparr>g_calls := g_calls s @ [\<lparr>c_wg = 0, c_val = None, c_err = None\<rparr>]\<rparr>)"
  | (L62) c where "t_pc (callers s t) = L62 c"
          "s' = goto t (L64 c) (upd_call c (\<lambda>x. x\<lparr>c_wg := c_wg x + 1\<rparr>) s)"
  | (L64n) c where "t_pc (callers s t) = L64 c" "g_m s = None" "s' = goto t Panicked s"
  | (L64) c mp where "t_pc (callers s t) = L64 c" "g_m s = Some mp"
          "s' = goto t (L65 c) (s\<lparr>g_m := Some (mp(t_key (callers s t) \<mapsto> c))\<rparr>)"
  | (L65) c where "t_pc (callers s t) = L65 c" "s' = goto t (L68 c) (s\<lparr>g_mu := None\<rparr>)"
  | (L68) c where "t_pc (callers s t) = L68 c"
          "s' = s\<lparr>callers := (callers s)
                  (t := (callers s t)\<lparr>t_pc := InFn c, t_fn_calls := t_fn_calls (callers s t) + 1\<rparr>)\<rparr>"
  | (InFn) c where "t_pc (callers s t) = InFn c"
          "s' = (upd_call c (\<lambda>x. x\<lparr>c_val := fst r, c_err := snd r\<rparr>) s)
                  \<lparr>callers := (callers s)
                     (t := (callers s t)\<lparr>t_pc := L70 c, t_fn_result := Some r\<rparr>)\<rparr>"
  | (L70) c where "t_pc (callers s t) = L70 c"
          "s' = goto t (L72 c) (upd_call c (\<lambda>x. x\<lparr>c_wg := c_wg x - 1\<rparr>) s)"
  | (L72) c where "t_pc (callers s t) = L72 c" "g_mu s = None"
          "s' = goto t (L74 c) (s\<lparr>g_mu := Some t\<rparr>)"
  | (L74n) c where "t_pc (callers s t) = L74 c" "g_m s = None" "s' = goto t (L75 c) s"
  | (L74) c mp where "t_pc (callers s t) = L74 c" "g_m s = Some mp"
          "s' = goto t (L75 c) (s\<lparr>g_m := Some (mp(t_key (callers s t) := None))\<rparr>)"
  | (L75) c where "t_pc (callers s t) = L75 c" "s' = goto t (L77 c) (s\<lparr>g_mu := None\<rparr>)"
  | (L77) c where "t_pc (callers s t) = L77 c"
          "s' = goto t (RetP c (c_val (g_calls s ! c), c_err (g_calls s ! c))) s"
  using assms
  by (cases "t_pc (callers s t)")
     (auto simp: Do_step_def Let_def split: if_splits option.splits)

lemma inv_init: "flight_inv ks (flight_init ks)"
  by (simp add: flight_inv_def flight_init_def inv_key_def inv_lock_def inv_alloc_def
      inv_maker_def inv_owner_def inv_entry_def inv_absent_def inv_wg_def inv_once_def
      inv_result_def inv_follow_def inv_waited_def inflight_def)

text \<open>The parts of the invariant, at a given caller.\<close>

lemma inv_lockD: "inv_lock s \<Longrightarrow> (g_mu s = Some t) = holds_lock (t_pc (callers s t))"
  by (simp add: inv_lock_def)

lemma inv_allocD:
  "inv_alloc s \<Longrightarrow> pioneer_of (t_pc (callers s t)) = Some c \<Longrightarrow> c < length (g_calls s)"
  "inv_alloc s \<Longrightarrow> follower_of (t_pc (callers s t)) = Some c \<Longrightarrow> c < length (g_calls s)"
  by (simp_all add: inv_alloc_def)

lemma inv_makerD:
  "inv_maker s \<Longrightarrow> pioneer_of (t_pc (callers s t)) = Some c \<Longrightarrow>
   pioneer_of (t_pc (callers s u)) = Some c \<Longrightarrow> t = u"
  unfolding inv_maker_def by blast

lemma inv_ownerD:
  "inv_owner s \<Longrightarrow> owns (t_pc (callers s t)) = Some c \<Longrightarrow>
   inflight s (t_key (callers s t)) = Some c"
  by (simp add: inv_owner_def)

lemma inv_entryD:
  "inv_entry s \<Longrightarrow> inflight s k = Some c \<Longrightarrow>
   \<exists>t. t_key (callers s t) = k \<and> owns (t_pc (callers s t)) = Some c"
  by (simp add: inv_entry_def)

lemma inv_absentD:
  "inv_absent s \<Longrightarrow> before_store (t_pc (callers s t)) \<Longrightarrow>
   g_m s \<noteq> None \<and> inflight s (t_key (callers s t)) = None"
  "inv_absent s \<Longrightarrow> t_pc (callers s t) = L53 \<Longrightarrow> g_m s \<noteq> None"
  "inv_absent s \<Longrightarrow> t_pc (callers s t) \<noteq> Panicked"
  by (simp_all add: inv_absent_def)

lemma inv_wgD:
  "inv_wg s \<Longrightarrow> pioneer_of (t_pc (callers s t)) = Some c \<Longrightarrow>
   c_wg (g_calls s ! c) = wg_of (t_pc (callers s t))"
  by (simp add: inv_wg_def)

lemma inv_onceD:
  "inv_once s \<Longrightarrow> t_fn_calls (callers s t) = (if stage (t_pc (callers s t)) = 0 then 0 else 1)"
  by (simp add: inv_once_def)

lemma inv_resultD:
  "inv_result s \<Longrightarrow> pioneer_of (t_pc (callers s t)) = Some c \<Longrightarrow>
   2 \<le> stage (t_pc (callers s t)) \<Longrightarrow>
   t_fn_result (callers s t) = Some (c_val (g_calls s ! c), c_err (g_calls s ! c))"
  by (simp add: inv_result_def)

lemma inv_followD:
  "inv_follow s \<Longrightarrow> follower_of (t_pc (callers s t)) = Some c \<Longrightarrow>
   \<exists>p. p \<noteq> t \<and> t_key (callers s p) = t_key (callers s t) \<and>
       pioneer_of (t_pc (callers s p)) = Some c \<and>
       (owns (t_pc (callers s p)) = Some c \<or> stage (t_pc (callers s p)) = 3)"
  by (simp add: inv_follow_def)

lemma inv_waitedD:
  "inv_waited s \<Longrightarrow> t_pc (callers s t) = L57 c \<Longrightarrow> c_wg (g_calls s ! c) = 0"
  "inv_waited s \<Longrightarrow> t_pc (callers s t) = RetF c x \<Longrightarrow>
   c_wg (g_calls s ! c) = 0 \<and> x = (c_val (g_calls s ! c), c_err (g_calls s ! c))"
  "inv_waited s \<Longrightarrow> t_pc (callers s t) = RetP c x \<Longrightarrow>
   x = (c_val (g_calls s ! c), c_err (g_calls s ! c))"
  unfolding inv_waited_def by blast+

lemma no_nil_store:
  "inv_absent s \<Longrightarrow> t_pc (callers s t) = L64 c \<Longrightarrow> g_m s \<noteq> None"
  using inv_absentD(1) [of s t] by simp

lemma step_key:
  assumes "Do_step t r s = Some s'" and "inv_key ks s"
  shows "inv_key ks s'"
  using assms(1)
  by (cases rule: Do_step_cases) (use assms(2) in \<open>auto simp: inv_key_def\<close>)

lemma step_lock:
  assumes st: "Do_step t r s = Some s'" and "inv_lock s" and "inv_absent s"
  shows "inv_lock s'"
  unfolding inv_lock_def
proof
  fix u
  note a = inv_lockD [OF assms(2), of t] inv_lockD [OF assms(2), of u]
    no_nil_store [OF assms(3), of t]
  from st show "(g_mu s' = Some u) = holds_lock (t_pc (callers s' u))"
    by (cases rule: Do_step_cases) (use a in \<open>auto\<close>)
qed

lemma entry_allocated:
  assumes "inv_entry s" and "inv_alloc s" and "inflight s k = Some c"
  shows "c < length (g_calls s)"
proof -
  from assms(1,3) obtain u where "owns (t_pc (callers s u)) = Some c"
    by (auto simp: inv_entry_def)
  then have "pioneer_of (t_pc (callers s u)) = Some c" by (rule owns_pioneer)
  with assms(2) show ?thesis by (auto simp: inv_alloc_def)
qed


text \<open>What a step changes.\<close>

lemma step_others:
  assumes "Do_step t r s = Some s'" and "u \<noteq> t"
  shows "callers s' u = callers s u"
  using assms(1) by (cases rule: Do_step_cases) (use assms(2) in \<open>auto\<close>)

lemma step_same_key:
  assumes "Do_step t r s = Some s'"
  shows "t_key (callers s' u) = t_key (callers s u)"
  using assms(1) by (cases rule: Do_step_cases) auto

lemma step_pioneer:
  assumes "Do_step t r s = Some s'" and "pioneer_of (t_pc (callers s' t)) = Some c"
  shows "pioneer_of (t_pc (callers s t)) = Some c \<or>
         (t_pc (callers s t) = L60 \<and> c = length (g_calls s))"
  using assms(1) by (cases rule: Do_step_cases) (use assms(2) in \<open>auto\<close>)

lemma step_length:
  assumes "Do_step t r s = Some s'"
  shows "length (g_calls s) \<le> length (g_calls s')"
  using assms(1) by (cases rule: Do_step_cases) auto

lemma step_alloc:
  assumes st: "Do_step t r s = Some s'" and "inv_alloc s" and "inv_entry s"
  shows "inv_alloc s'"
  unfolding inv_alloc_def
proof (intro allI impI)
  fix u c
  assume h: "pioneer_of (t_pc (callers s' u)) = Some c \<or> follower_of (t_pc (callers s' u)) = Some c"
  note a = inv_allocD [OF assms(2), of t] inv_allocD [OF assms(2), of u]
    entry_allocated [OF assms(3,2), of "t_key (callers s t)"]
  from st h show "c < length (g_calls s')"
    by (cases rule: Do_step_cases) (use a in \<open>auto simp: less_Suc_eq split: if_splits\<close>)
qed

lemma step_maker:
  assumes st: "Do_step t r s = Some s'" and "inv_maker s" and "inv_alloc s"
  shows "inv_maker s'"
proof -
  have one: "t = w"
    if w: "pioneer_of (t_pc (callers s w)) = Some c"
      and t: "pioneer_of (t_pc (callers s' t)) = Some c" for w c
  proof -
    from step_pioneer [OF st t] show ?thesis
    proof
      assume "pioneer_of (t_pc (callers s t)) = Some c"
      with assms(2) w show ?thesis by (blast dest: inv_makerD)
    next
      assume "t_pc (callers s t) = L60 \<and> c = length (g_calls s)"
      moreover have "c < length (g_calls s)" using assms(3) w by (rule inv_allocD(1))
      ultimately show ?thesis by simp
    qed
  qed
  show ?thesis
    unfolding inv_maker_def
  proof (intro allI impI)
    fix u w c
    assume h: "pioneer_of (t_pc (callers s' u)) = Some c \<and> pioneer_of (t_pc (callers s' w)) = Some c"
    show "u = w"
    proof (cases "u = t")
      case ut: True
      show ?thesis
      proof (cases "w = t")
        case True
        with ut show ?thesis by simp
      next
        case False
        with h step_others [OF st False] ut one [of w c] show ?thesis by simp
      qed
    next
      case uf: False
      show ?thesis
      proof (cases "w = t")
        case True
        with h step_others [OF st uf] one [of u c] show ?thesis by simp
      next
        case False
        with h step_others [OF st uf] step_others [OF st False] assms(2)
        show ?thesis by (auto dest: inv_makerD)
      qed
    qed
  qed
qed

lemma inflight_map:
  "g_m s = Some mp \<Longrightarrow> inflight s k = mp k"
  "g_m s = None \<Longrightarrow> inflight s k = None"
  by (simp_all add: inflight_def)

lemma inflight_lazy [simp]:
  "inflight (if g_m s = None then s\<lparr>g_m := Some Map.empty\<rparr> else s) k = inflight s k"
  by (simp add: inflight_def)

lemma step_owner:
  assumes st: "Do_step t r s = Some s'" and "inv_owner s" and "inv_absent s" and "inv_maker s"
  shows "inv_owner s'"
  unfolding inv_owner_def
proof (intro allI impI)
  fix u c
  assume h: "owns (t_pc (callers s' u)) = Some c"
  note ot = inv_ownerD [OF assms(2), of t]
  note ab = inv_absentD(1) [OF assms(3), of t]
  show "inflight s' (t_key (callers s' u)) = Some c"
  proof (cases "u = t")
    case True
    from st h show ?thesis
      unfolding True
      by (cases rule: Do_step_cases) (use ot ab in \<open>auto simp: inflight_map\<close>)
  next
    case False
    have cu: "callers s' u = callers s u" using st False by (rule step_others)
    with h have ou: "owns (t_pc (callers s u)) = Some c" by simp
    then have iu: "inflight s (t_key (callers s u)) = Some c"
      using assms(2) by (simp add: inv_ownerD)
    have diff: "\<not> (owns (t_pc (callers s t)) = Some c)"
      using inv_makerD [OF assms(4), of t c u] ou False by (auto dest: owns_pioneer)
    from st show ?thesis
      unfolding cu
      by (cases rule: Do_step_cases) (use iu ot ab diff in \<open>auto simp: inflight_map\<close>)
  qed
qed

lemma step_entry:
  assumes st: "Do_step t r s = Some s'" and "inv_entry s" and "inv_owner s"
  shows "inv_entry s'"
  unfolding inv_entry_def
proof (intro allI impI)
  fix k c
  assume h: "inflight s' k = Some c"
  show "\<exists>u. t_key (callers s' u) = k \<and> owns (t_pc (callers s' u)) = Some c"
  proof (cases "inflight s k = Some c")
    case False
    from st h False have "t_key (callers s' t) = k \<and> owns (t_pc (callers s' t)) = Some c"
      by (cases rule: Do_step_cases) (auto simp: inflight_map split: if_splits)
    then show ?thesis by blast
  next
    case True
    with assms(2) obtain u0 where u0: "t_key (callers s u0) = k" "owns (t_pc (callers s u0)) = Some c"
      by (blast dest: inv_entryD)
    show ?thesis
    proof (cases "u0 = t")
      case False
      with st have "callers s' u0 = callers s u0" by (simp add: step_others)
      with u0 show ?thesis by (intro exI [of _ u0]) simp
    next
      case ut: True
      from st h u0 have "t_key (callers s' t) = k \<and> owns (t_pc (callers s' t)) = Some c"
        unfolding ut
        by (cases rule: Do_step_cases) (auto simp: inflight_map split: if_splits)
      then show ?thesis by blast
    qed
  qed
qed

lemma step_absent:
  assumes st: "Do_step t r s = Some s'" and "inv_absent s" and "inv_lock s"
  shows "inv_absent s'"
  unfolding inv_absent_def
proof
  fix u
  note at = inv_absentD [OF assms(2), of t]
  note au = inv_absentD [OF assms(2), of u]
  note lt = inv_lockD [OF assms(3), of t]
  note lu = inv_lockD [OF assms(3), of u]
  show "(before_store (t_pc (callers s' u)) \<longrightarrow>
           g_m s' \<noteq> None \<and> inflight s' (t_key (callers s' u)) = None) \<and>
        (t_pc (callers s' u) = L53 \<longrightarrow> g_m s' \<noteq> None) \<and>
        t_pc (callers s' u) \<noteq> Panicked"
  proof (cases "u = t")
    case True
    from st show ?thesis
      unfolding True
      by (cases rule: Do_step_cases) (use at in \<open>auto simp: inflight_map\<close>)
  next
    case False
    have cu: "callers s' u = callers s u" using st False by (rule step_others)
    have nl: "holds_lock (t_pc (callers s t)) \<Longrightarrow> \<not> holds_lock (t_pc (callers s u))"
      using lt lu False by auto
    have bl: "before_store p \<Longrightarrow> holds_lock p" for p :: "('a, 'b) pc"
      by (cases p) simp_all
    from st show ?thesis
      unfolding cu
      by (cases rule: Do_step_cases) (use au nl bl [of "t_pc (callers s u)"] in \<open>auto simp: inflight_map\<close>)
  qed
qed

lemma step_wg:
  assumes st: "Do_step t r s = Some s'" and "inv_wg s" and "inv_alloc s" and "inv_maker s"
  shows "inv_wg s'"
  unfolding inv_wg_def
proof (intro allI impI)
  fix u c
  assume h: "pioneer_of (t_pc (callers s' u)) = Some c"
  note wt = inv_wgD [OF assms(2), of t]
  note lt = inv_allocD(1) [OF assms(3), of t]
  show "c_wg (g_calls s' ! c) = wg_of (t_pc (callers s' u))"
  proof (cases "u = t")
    case True
    from st h show ?thesis
      unfolding True
      by (cases rule: Do_step_cases) (use wt lt in \<open>auto\<close>)
  next
    case False
    have cu: "callers s' u = callers s u" using st False by (rule step_others)
    with h have pu: "pioneer_of (t_pc (callers s u)) = Some c" by simp
    have wu: "c_wg (g_calls s ! c) = wg_of (t_pc (callers s u))"
      using assms(2) pu by (rule inv_wgD)
    have lu: "c < length (g_calls s)" using assms(3) pu by (rule inv_allocD(1))
    have diff: "pioneer_of (t_pc (callers s t)) \<noteq> Some c"
      using inv_makerD [OF assms(4), of t c u] pu False by auto
    from st show ?thesis
      unfolding cu
      by (cases rule: Do_step_cases) (use wu lu diff in \<open>auto simp: nth_append\<close>)
  qed
qed

lemma step_once:
  assumes st: "Do_step t r s = Some s'" and "inv_once s"
  shows "inv_once s'"
  unfolding inv_once_def
proof
  fix u
  note ot = inv_onceD [OF assms(2), of t]
  note ou = inv_onceD [OF assms(2), of u]
  from st show "t_fn_calls (callers s' u) = (if stage (t_pc (callers s' u)) = 0 then 0 else 1)"
    by (cases rule: Do_step_cases) (use ot ou in \<open>auto\<close>)
qed

lemma step_result:
  assumes st: "Do_step t r s = Some s'" and "inv_result s" and "inv_alloc s" and "inv_maker s"
  shows "inv_result s'"
  unfolding inv_result_def
proof (intro allI impI)
  fix u c
  assume h: "pioneer_of (t_pc (callers s' u)) = Some c \<and> 2 \<le> stage (t_pc (callers s' u))"
  note rt = inv_resultD [OF assms(2), of t]
  note lt = inv_allocD(1) [OF assms(3), of t]
  show "t_fn_result (callers s' u) = Some (c_val (g_calls s' ! c), c_err (g_calls s' ! c))"
  proof (cases "u = t")
    case True
    from st h show ?thesis
      unfolding True
      by (cases rule: Do_step_cases) (use rt lt in \<open>auto\<close>)
  next
    case False
    have cu: "callers s' u = callers s u" using st False by (rule step_others)
    with h have pu: "pioneer_of (t_pc (callers s u)) = Some c" "2 \<le> stage (t_pc (callers s u))"
      by simp_all
    have ru: "t_fn_result (callers s u) = Some (c_val (g_calls s ! c), c_err (g_calls s ! c))"
      using assms(2) pu by (rule inv_resultD)
    have lu: "c < length (g_calls s)" using assms(3) pu(1) by (rule inv_allocD(1))
    have diff: "pioneer_of (t_pc (callers s t)) \<noteq> Some c"
      using inv_makerD [OF assms(4), of t c u] pu(1) False by auto
    from st show ?thesis
      unfolding cu
      by (cases rule: Do_step_cases) (use ru lu diff in \<open>auto simp: nth_append\<close>)
  qed
qed

lemma step_follower:
  assumes "Do_step t r s = Some s'" and "follower_of (t_pc (callers s' t)) = Some c"
  shows "follower_of (t_pc (callers s t)) = Some c \<or>
         (t_pc (callers s t) = L53 \<and> inflight s (t_key (callers s t)) = Some c)"
  using assms(1) by (cases rule: Do_step_cases) (use assms(2) in \<open>auto\<close>)

lemma step_stored:
  assumes "Do_step t r s = Some s'" and "pioneer_of (t_pc (callers s t)) = Some c"
    and "owns (t_pc (callers s t)) = Some c \<or> stage (t_pc (callers s t)) = 3"
  shows "pioneer_of (t_pc (callers s' t)) = Some c \<and>
         (owns (t_pc (callers s' t)) = Some c \<or> stage (t_pc (callers s' t)) = 3)"
  using assms(1) by (cases rule: Do_step_cases) (use assms(2,3) in \<open>auto\<close>)

lemma step_follow:
  assumes st: "Do_step t r s = Some s'" and "inv_follow s" and "inv_entry s"
  shows "inv_follow s'"
  unfolding inv_follow_def
proof (intro allI impI)
  fix u c
  assume h: "follower_of (t_pc (callers s' u)) = Some c"
  have old: "\<exists>p. p \<noteq> u \<and> t_key (callers s p) = t_key (callers s u) \<and>
       pioneer_of (t_pc (callers s p)) = Some c \<and>
       (owns (t_pc (callers s p)) = Some c \<or> stage (t_pc (callers s p)) = 3)"
  proof (cases "u = t")
    case False
    with st have "callers s' u = callers s u" by (simp add: step_others)
    with h assms(2) show ?thesis by (simp add: inv_followD)
  next
    case True
    from step_follower [OF st h [unfolded True]] show ?thesis
    proof
      assume "follower_of (t_pc (callers s t)) = Some c"
      with assms(2) True show ?thesis by (simp add: inv_followD)
    next
      assume a: "t_pc (callers s t) = L53 \<and> inflight s (t_key (callers s t)) = Some c"
      with assms(3) obtain p where p: "t_key (callers s p) = t_key (callers s t)"
        "owns (t_pc (callers s p)) = Some c"
        by (blast dest: inv_entryD)
      with a have "p \<noteq> t" by auto
      with p True show ?thesis by (auto dest: owns_pioneer)
    qed
  qed
  then obtain p where p: "p \<noteq> u" "t_key (callers s p) = t_key (callers s u)"
    "pioneer_of (t_pc (callers s p)) = Some c"
    "owns (t_pc (callers s p)) = Some c \<or> stage (t_pc (callers s p)) = 3"
    by blast
  have k: "t_key (callers s' p) = t_key (callers s' u)"
    using p(2) by (simp add: step_same_key [OF st])
  have "pioneer_of (t_pc (callers s' p)) = Some c \<and>
        (owns (t_pc (callers s' p)) = Some c \<or> stage (t_pc (callers s' p)) = 3)"
  proof (cases "p = t")
    case True
    with step_stored [OF st] p(3,4) show ?thesis by simp
  next
    case False
    with st have "callers s' p = callers s p" by (simp add: step_others)
    with p(3,4) show ?thesis by simp
  qed
  with p(1) k
  show "\<exists>p. p \<noteq> u \<and> t_key (callers s' p) = t_key (callers s' u) \<and>
       pioneer_of (t_pc (callers s' p)) = Some c \<and>
       (owns (t_pc (callers s' p)) = Some c \<or> stage (t_pc (callers s' p)) = 3)"
    by blast
qed

lemma follower_call_settled:
  assumes "inv_follow s" and "inv_maker s" and "inv_wg s"
    and f: "follower_of (t_pc (callers s u)) = Some c" and w: "c_wg (g_calls s ! c) = 0"
    and p: "pioneer_of (t_pc (callers s t)) = Some c"
  shows "stage (t_pc (callers s t)) = 3"
proof -
  from assms(1) f obtain q where q: "pioneer_of (t_pc (callers s q)) = Some c"
    "owns (t_pc (callers s q)) = Some c \<or> stage (t_pc (callers s q)) = 3"
    by (blast dest: inv_followD)
  with assms(2) p have "q = t" by (blast dest: inv_makerD)
  with q have o: "owns (t_pc (callers s t)) = Some c \<or> stage (t_pc (callers s t)) = 3" by simp
  have "wg_of (t_pc (callers s t)) = 0"
    using inv_wgD [OF assms(3) p] w by simp
  with o show ?thesis by (cases "t_pc (callers s t)") simp_all
qed

lemma step_waited:
  assumes st: "Do_step t r s = Some s'" and "inv_waited s" and "inv_alloc s" and "inv_maker s"
    and "inv_follow s" and "inv_wg s"
  shows "inv_waited s'"
  unfolding inv_waited_def
proof (intro allI)
  fix u c
  note wt = inv_waitedD [OF assms(2), of t]
  show "(t_pc (callers s' u) = L57 c \<longrightarrow> c_wg (g_calls s' ! c) = 0) \<and>
        (\<forall>x. t_pc (callers s' u) = RetF c x \<longrightarrow>
             c_wg (g_calls s' ! c) = 0 \<and> x = (c_val (g_calls s' ! c), c_err (g_calls s' ! c))) \<and>
        (\<forall>x. t_pc (callers s' u) = RetP c x \<longrightarrow>
             x = (c_val (g_calls s' ! c), c_err (g_calls s' ! c)))"
  proof (cases "u = t")
    case True
    from st show ?thesis
      unfolding True
      by (cases rule: Do_step_cases) (use wt in \<open>auto\<close>)
  next
    case False
    have cu: "callers s' u = callers s u" using st False by (rule step_others)
    note wu = inv_waitedD [OF assms(2), of u c]
    have same: "g_calls s' ! c = g_calls s ! c"
      if m: "pioneer_of (t_pc (callers s u)) = Some c \<or>
             (follower_of (t_pc (callers s u)) = Some c \<and> c_wg (g_calls s ! c) = 0)"
    proof -
      have lu: "c < length (g_calls s)"
        using m inv_allocD [OF assms(3), of u c] by blast
      have "stage (t_pc (callers s t)) \<noteq> 1 \<and> stage (t_pc (callers s t)) \<noteq> 2 \<and>
            t_pc (callers s t) \<noteq> L62 c"
        if pt: "pioneer_of (t_pc (callers s t)) = Some c"
      proof -
        from m show ?thesis
        proof
          assume "pioneer_of (t_pc (callers s u)) = Some c"
          with assms(4) pt have "t = u" by (blast dest: inv_makerD)
          with False show ?thesis by simp
        next
          assume "follower_of (t_pc (callers s u)) = Some c \<and> c_wg (g_calls s ! c) = 0"
          then have "stage (t_pc (callers s t)) = 3"
            using follower_call_settled [OF assms(5,4,6) _ _ pt] by blast
          then show ?thesis by auto
        qed
      qed
      then have "t_pc (callers s t) \<noteq> L62 c \<and> t_pc (callers s t) \<noteq> InFn c \<and>
                 t_pc (callers s t) \<noteq> L70 c"
        by auto
      with st lu show ?thesis
        by (cases rule: Do_step_cases) (auto simp: nth_append)
    qed
    show ?thesis
      unfolding cu using wu same by auto
  qed
qed

lemma inv_step:
  assumes "flight_inv ks s" and st: "Do_step t r s = Some s'"
  shows "flight_inv ks s'"
proof -
  from assms(1) have i: "inv_key ks s" "inv_lock s" "inv_alloc s" "inv_maker s" "inv_owner s"
    "inv_entry s" "inv_absent s" "inv_wg s" "inv_once s" "inv_result s" "inv_follow s"
    "inv_waited s"
    by (simp_all add: flight_inv_def)
  show ?thesis
    unfolding flight_inv_def
    using step_key [OF st i(1)] step_lock [OF st i(2,7)] step_alloc [OF st i(3,6)]
      step_maker [OF st i(4,3)] step_owner [OF st i(5,7,4)] step_entry [OF st i(6,5)]
      step_absent [OF st i(7,2)] step_wg [OF st i(8,3,4)] step_once [OF st i(9)]
      step_result [OF st i(10,3,4)] step_follow [OF st i(11,6)]
      step_waited [OF st i(12,3,4,11,8)]
    by blast
qed

lemma reachable_inv: "reachable ks s \<Longrightarrow> flight_inv ks s"
  by (induction rule: reachable.induct) (auto intro: inv_init inv_step)

lemma run_reachable:
  "reachable ks s \<Longrightarrow> run sch s = Some s' \<Longrightarrow> reachable ks s'"
proof (induction sch arbitrary: s)
  case Nil
  then show ?case by simp
next
  case (Cons a sch)
  obtain t r where a: "a = (t, r)" by (cases a)
  from Cons.prems(2) obtain s1 where s1: "Do_step t r s = Some s1" "run sch s1 = Some s'"
    by (auto simp: a split: option.splits)
  from Cons.prems(1) s1(1) have "reachable ks s1" by (rule reach_step)
  then show ?case using s1(2) by (rule Cons.IH)
qed

lemma owner_unique:
  assumes "flight_inv ks s"
    and "owns (t_pc (callers s t)) = Some c" and "owns (t_pc (callers s u)) = Some d"
    and "ks t = ks u"
  shows "t = u"
proof -
  from assms(1) have i: "inv_key ks s" "inv_maker s" "inv_owner s"
    by (simp_all add: flight_inv_def)
  have "inflight s (ks t) = Some c" "inflight s (ks u) = Some d"
    using inv_ownerD [OF i(3) assms(2)] inv_ownerD [OF i(3) assms(3)] i(1)
    by (simp_all add: inv_key_def)
  with assms(4) have "c = d" by simp
  with assms(2,3) i(2) show ?thesis by (blast dest: owns_pioneer inv_makerD)
qed

lemma follower_result:
  assumes "flight_inv ks s" and f: "t_pc (callers s t) = RetF c x"
  shows "t_fn_calls (callers s t) = 0 \<and>
         (\<exists>p. p \<noteq> t \<and> ks p = ks t \<and> pioneer_of (t_pc (callers s p)) = Some c \<and>
              (\<forall>q. pioneer_of (t_pc (callers s q)) = Some c \<longrightarrow> q = p) \<and>
              t_fn_calls (callers s p) = 1 \<and>
              t_fn_result (callers s p) = Some x \<and>
              (\<forall>d y. t_pc (callers s p) = RetP d y \<longrightarrow> d = c \<and> y = x))"
proof -
  from assms(1) have i: "inv_key ks s" "inv_maker s" "inv_wg s" "inv_once s" "inv_result s"
    "inv_follow s" "inv_waited s"
    by (simp_all add: flight_inv_def)
  have fo: "follower_of (t_pc (callers s t)) = Some c" using f by simp
  have w: "c_wg (g_calls s ! c) = 0" and x: "x = (c_val (g_calls s ! c), c_err (g_calls s ! c))"
    using inv_waitedD(2) [OF i(7) f] by simp_all
  from inv_followD [OF i(6) fo] obtain p where p: "p \<noteq> t"
    "t_key (callers s p) = t_key (callers s t)" "pioneer_of (t_pc (callers s p)) = Some c"
    by blast
  have u: "q = p" if "pioneer_of (t_pc (callers s q)) = Some c" for q
    using i(2) that p(3) by (rule inv_makerD)
  have st3: "stage (t_pc (callers s p)) = 3"
    using i(6) i(2) i(3) fo w p(3) by (rule follower_call_settled)
  have r: "t_fn_result (callers s p) = Some x"
    using inv_resultD [OF i(5) p(3)] st3 x by simp
  have n: "t_fn_calls (callers s p) = 1"
    using inv_onceD [OF i(4), of p] st3 by simp
  have k: "ks p = ks t" using p(2) i(1) by (simp add: inv_key_def)
  have y: "d = c \<and> y = x" if "t_pc (callers s p) = RetP d y" for d y
  proof -
    from that p(3) have "d = c" by simp
    with inv_waitedD(3) [OF i(7) that] x show ?thesis by simp
  qed
  have z: "t_fn_calls (callers s t) = 0"
    using inv_onceD [OF i(4), of t] f by simp
  from z p(1) k p(3) u n r y show ?thesis by blast
qed

lemma followers_agree:
  assumes "flight_inv ks s"
    and "t_pc (callers s t) = RetF c x" and "t_pc (callers s u) = RetF c y"
  shows "x = y"
proof -
  from assms(1) have "inv_waited s" by (simp add: flight_inv_def)
  from inv_waitedD(2) [OF this assms(2)] inv_waitedD(2) [OF this assms(3)]
  show ?thesis by simp
qed

text \<open>
  Claim C1 (as amended). In every state that callers of \<open>Do\<close> on one group can reach:
  for every key at most one caller is between storing its call in \<open>g.m\<close> and
  deleting it, so at most one execution of \<open>fn\<close> for the key is in flight at a time;
  and every caller that found a call \<open>c\<close> in flight and has returned did not invoke
  \<open>fn\<close> and returned exactly the pair that \<open>fn\<close> gave to the pioneer of \<open>c\<close>: the one
  caller that made the call \<open>c\<close>, a different caller with the same key, who invoked
  \<open>fn\<close> once and itself returns that pair from that call. All callers that found the
  same call return the same pair.
\<close>

theorem single_flight:
  assumes "reachable ks s"
  shows "(\<forall>t u c d. owns (t_pc (callers s t)) = Some c \<and> owns (t_pc (callers s u)) = Some d \<and>
            ks t = ks u \<longrightarrow> t = u) \<and>
         (\<forall>t u c d. t_pc (callers s t) = InFn c \<and> t_pc (callers s u) = InFn d \<and>
            ks t = ks u \<longrightarrow> t = u) \<and>
         (\<forall>t c x. t_pc (callers s t) = RetF c x \<longrightarrow>
            t_fn_calls (callers s t) = 0 \<and>
            (\<exists>p. p \<noteq> t \<and> ks p = ks t \<and> pioneer_of (t_pc (callers s p)) = Some c \<and>
                 (\<forall>q. pioneer_of (t_pc (callers s q)) = Some c \<longrightarrow> q = p) \<and>
                 t_fn_calls (callers s p) = 1 \<and>
                 t_fn_result (callers s p) = Some x \<and>
                 (\<forall>d y. t_pc (callers s p) = RetP d y \<longrightarrow> d = c \<and> y = x))) \<and>
         (\<forall>t u c x y. t_pc (callers s t) = RetF c x \<and> t_pc (callers s u) = RetF c y \<longrightarrow> x = y)"
proof -
  note i = reachable_inv [OF assms]
  have a: "t = u" if "owns (t_pc (callers s t)) = Some c \<and> owns (t_pc (callers s u)) = Some d \<and>
            ks t = ks u" for t u c d
    using owner_unique [OF i, of t c u d] that by blast
  have b: "t = u" if "t_pc (callers s t) = InFn c \<and> t_pc (callers s u) = InFn d \<and>
            ks t = ks u" for t u c d
    using owner_unique [OF i, of t c u d] that by simp
  have c: "x = y" if "t_pc (callers s t) = RetF c x \<and> t_pc (callers s u) = RetF c y"
    for t u c x y
    using followers_agree [OF i, of t c x u y] that by blast
  show ?thesis
  proof (intro conjI allI impI)
    fix t u c d
    assume "owns (t_pc (callers s t)) = Some c \<and> owns (t_pc (callers s u)) = Some d \<and>
            ks t = ks u"
    then show "t = u" by (rule a)
  next
    fix t u c d
    assume "t_pc (callers s t) = InFn c \<and> t_pc (callers s u) = InFn d \<and> ks t = ks u"
    then show "t = u" by (rule b)
  next
    fix t c x
    assume f: "t_pc (callers s t) = RetF c x"
    from follower_result [OF i f] show "t_fn_calls (callers s t) = 0" by blast
    from follower_result [OF i f]
    show "\<exists>p. p \<noteq> t \<and> ks p = ks t \<and> pioneer_of (t_pc (callers s p)) = Some c \<and>
                 (\<forall>q. pioneer_of (t_pc (callers s q)) = Some c \<longrightarrow> q = p) \<and>
                 t_fn_calls (callers s p) = 1 \<and>
                 t_fn_result (callers s p) = Some x \<and>
                 (\<forall>d y. t_pc (callers s p) = RetP d y \<longrightarrow> d = c \<and> y = x)"
      by blast
  next
    fix t u c x y
    assume "t_pc (callers s t) = RetF c x \<and> t_pc (callers s u) = RetF c y"
    then show "x = y" by (rule c)
  qed
qed


lemma ex_schedule_runs: "\<not> Option.is_none (run ex_schedule ex_flight)"
  by code_simp

lemma ex_schedule_observed:
  "observe (the (run ex_schedule ex_flight)) = (L77 0, RetP 1 ex_b, 1, 1)"
  by code_simp

lemma ex_schedule_observed2:
  "observe (the (run (ex_schedule @ [(0, ex_a)]) ex_flight)) = (RetP 0 ex_a, RetP 1 ex_b, 1, 1)"
  by code_simp

lemma ex_follow_runs: "\<not> Option.is_none (run ex_follow_schedule ex_flight)"
  by code_simp

lemma ex_follow_observed:
  "observe (the (run ex_follow_schedule ex_flight)) = (L72 0, RetF 0 ex_a, 1, 0)"
  by code_simp

lemma run_the: "\<not> Option.is_none (run sch s) \<Longrightarrow> run sch s = Some (the (run sch s))"
  by (cases "run sch s") simp_all

lemma ex_follow_reachable: "reachable (\<lambda>t. ''k'') (the (run ex_follow_schedule ex_flight))"
proof -
  have "reachable (\<lambda>t. ''k'') (ex_flight :: (string, string) flight)"
    unfolding ex_flight_def by (rule reach_init)
  then show ?thesis
    using run_the [OF ex_follow_runs] by (rule run_reachable)
qed

theorem single_flight_witness:
  "t_pc (callers (the (run ex_follow_schedule ex_flight)) 1) = RetF 0 ex_a \<and>
   t_fn_calls (callers (the (run ex_follow_schedule ex_flight)) 1) = 0 \<and>
   (\<exists>p. p \<noteq> 1 \<and>
        pioneer_of (t_pc (callers (the (run ex_follow_schedule ex_flight)) p)) = Some 0 \<and>
        t_fn_calls (callers (the (run ex_follow_schedule ex_flight)) p) = 1 \<and>
        t_fn_result (callers (the (run ex_follow_schedule ex_flight)) p) = Some ex_a)"
proof -
  let ?s = "the (run ex_follow_schedule ex_flight)"
  have pc1: "t_pc (callers ?s 1) = RetF 0 ex_a"
    using ex_follow_observed by (simp add: observe_def)
  from single_flight [OF ex_follow_reachable]
  have "\<forall>t c x. t_pc (callers ?s t) = RetF c x \<longrightarrow>
            t_fn_calls (callers ?s t) = 0 \<and>
            (\<exists>p. p \<noteq> t \<and> (\<lambda>t. ''k'') p = (\<lambda>t. ''k'') t \<and>
                 pioneer_of (t_pc (callers ?s p)) = Some c \<and>
                 (\<forall>q. pioneer_of (t_pc (callers ?s q)) = Some c \<longrightarrow> q = p) \<and>
                 t_fn_calls (callers ?s p) = 1 \<and>
                 t_fn_result (callers ?s p) = Some x \<and>
                 (\<forall>d y. t_pc (callers ?s p) = RetP d y \<longrightarrow> d = c \<and> y = x))"
    by blast
  from this [rule_format, OF pc1] pc1 show ?thesis by blast
qed

theorem concurrent_callers_counterexample:
  "\<not> Option.is_none (run ex_schedule ex_flight) \<and>
   observe (the (run ex_schedule ex_flight)) = (L77 0, RetP 1 ex_b, 1, 1) \<and>
   observe (the (run (ex_schedule @ [(0, ex_a)]) ex_flight)) = (RetP 0 ex_a, RetP 1 ex_b, 1, 1) \<and>
   ex_a \<noteq> ex_b"
  using ex_schedule_runs ex_schedule_observed ex_schedule_observed2
  by (simp add: ex_a_def ex_b_def)

lemma replicate14:
  "replicate 14 x = [x, x, x, x, x, x, x, x, x, x, x, x, x, x]"
  by (simp add: eval_nat_numeral)

lemma Do_alone:
  assumes "t_pc (callers s t) = L48" and "g_mu s = None"
    and "inflight s (t_key (callers s t)) = None" and "t_fn_calls (callers s t) = 0"
  shows "\<exists>s'. run (replicate 14 (t, r)) s = Some s' \<and>
              t_pc (callers s' t) = RetP (length (g_calls s)) r \<and>
              t_fn_calls (callers s' t) = 1 \<and>
              t_fn_result (callers s' t) = Some r \<and>
              inflight s' (t_key (callers s t)) = None"
proof (cases "g_m s")
  case None
  with assms show ?thesis
    by (simp add: replicate14 Do_step_def goto_def upd_call_def inflight_def Let_def)
next
  case (Some mp)
  with assms show ?thesis
    by (simp add: replicate14 Do_step_def goto_def upd_call_def inflight_def Let_def)
qed

lemma pioneer_returned:
  assumes "flight_inv ks s" and p: "t_pc (callers s t) = RetP c x"
  shows "t_fn_calls (callers s t) = 1 \<and> t_fn_result (callers s t) = Some x \<and>
         inflight s (ks t) \<noteq> Some c"
proof -
  from assms(1) have i: "inv_key ks s" "inv_maker s" "inv_entry s" "inv_once s" "inv_result s"
    "inv_waited s"
    by (simp_all add: flight_inv_def)
  have pi: "pioneer_of (t_pc (callers s t)) = Some c" using p by simp
  have n: "t_fn_calls (callers s t) = 1"
    using inv_onceD [OF i(4), of t] p by simp
  have r: "t_fn_result (callers s t) = Some x"
    using inv_resultD [OF i(5) pi] inv_waitedD(3) [OF i(6) p] p by simp
  have e: "inflight s (ks t) \<noteq> Some c"
  proof
    assume "inflight s (ks t) = Some c"
    with i(3) obtain u where u: "owns (t_pc (callers s u)) = Some c"
      by (blast dest: inv_entryD)
    then have "pioneer_of (t_pc (callers s u)) = Some c" by (rule owns_pioneer)
    with i(2) pi have "t = u" by (blast dest: inv_makerD)
    with u p show False by simp
  qed
  from n r e show ?thesis by blast
qed

text \<open>
  Claim C7 (as amended). A call \<open>Do(key, fn)\<close> that found no entry for \<open>key\<close> in flight
  and has returned (from line 77), in any interleaving with other callers, has invoked
  \<open>fn\<close> exactly once, has returned exactly the pair \<open>fn\<close> gave it, and the entry it
  stored is no longer in \<open>g.m\<close>: \<open>g.m[key]\<close> is not its call. Run without another caller
  in between, from any state in which the mutex is free and \<open>g.m\<close> has no entry for
  \<open>key\<close>, the call returns after its 14 steps with the pair \<open>r\<close> of \<open>fn\<close>, \<open>fn\<close> invoked
  once, and \<open>g.m\<close> holds no entry for \<open>key\<close> at all.
\<close>

theorem Do_pioneer:
  "(reachable ks s \<and> t_pc (callers s t) = RetP c x \<longrightarrow>
      t_fn_calls (callers s t) = 1 \<and> t_fn_result (callers s t) = Some x \<and>
      inflight s (ks t) \<noteq> Some c) \<and>
   (t_pc (callers s0 t) = L48 \<and> g_mu s0 = None \<and>
    inflight s0 (t_key (callers s0 t)) = None \<and> t_fn_calls (callers s0 t) = 0 \<longrightarrow>
      (\<exists>s1. run (replicate 14 (t, r)) s0 = Some s1 \<and>
            t_pc (callers s1 t) = RetP (length (g_calls s0)) r \<and>
            t_fn_calls (callers s1 t) = 1 \<and>
            t_fn_result (callers s1 t) = Some r \<and>
            inflight s1 (t_key (callers s0 t)) = None))"
  using pioneer_returned [OF reachable_inv, of ks s t c x] Do_alone [of s0 t r]
  by blast

lemma ex_schedule_reachable: "reachable (\<lambda>t. ''k'') (the (run ex_schedule ex_flight))"
proof -
  have "reachable (\<lambda>t. ''k'') (ex_flight :: (string, string) flight)"
    unfolding ex_flight_def by (rule reach_init)
  then show ?thesis
    using run_the [OF ex_schedule_runs] by (rule run_reachable)
qed

theorem Do_pioneer_witness:
  "t_pc (callers (the (run ex_schedule ex_flight)) 1) = RetP 1 ex_b \<and>
   t_fn_calls (callers (the (run ex_schedule ex_flight)) 1) = 1 \<and>
   t_fn_result (callers (the (run ex_schedule ex_flight)) 1) = Some ex_b \<and>
   inflight (the (run ex_schedule ex_flight)) ''k'' \<noteq> Some 1 \<and>
   (\<exists>s1. run (replicate 14 (0, ex_a)) ex_flight = Some s1 \<and>
         t_pc (callers s1 0) = RetP 0 ex_a \<and>
         t_fn_calls (callers s1 0) = 1 \<and>
         t_fn_result (callers s1 0) = Some ex_a \<and>
         inflight s1 ''k'' = None)"
proof -
  let ?s = "the (run ex_schedule ex_flight)"
  have pc1: "t_pc (callers ?s 1) = RetP 1 ex_b"
    using ex_schedule_observed by (simp add: observe_def)
  have s0: "t_pc (callers ex_flight 0) = L48 \<and> g_mu ex_flight = None \<and>
            inflight ex_flight (t_key (callers ex_flight 0)) = None \<and>
            t_fn_calls (callers ex_flight 0) = 0"
    by (simp add: ex_flight_def flight_init_def inflight_def)
  have k: "t_key (callers ex_flight 0) = ''k''" "length (g_calls ex_flight) = 0"
    by (simp_all add: ex_flight_def flight_init_def)
  note d = Do_pioneer [of "\<lambda>t. ''k''" ?s 1 1 ex_b ex_flight ex_a]
  from d ex_schedule_reachable pc1
  have a: "t_fn_calls (callers ?s 1) = 1 \<and> t_fn_result (callers ?s 1) = Some ex_b \<and>
           inflight ?s ''k'' \<noteq> Some 1"
    by blast
  note e = Do_pioneer [of "\<lambda>t. ''k''" ?s 0 1 ex_b ex_flight ex_a]
  from e s0 have "\<exists>s1. run (replicate 14 (0, ex_a)) ex_flight = Some s1 \<and>
            t_pc (callers s1 0) = RetP (length (g_calls ex_flight)) ex_a \<and>
            t_fn_calls (callers s1 0) = 1 \<and>
            t_fn_result (callers s1 0) = Some ex_a \<and>
            inflight s1 (t_key (callers ex_flight 0)) = None"
    by blast
  then have b: "\<exists>s1. run (replicate 14 (0, ex_a)) ex_flight = Some s1 \<and>
         t_pc (callers s1 0) = RetP 0 ex_a \<and>
         t_fn_calls (callers s1 0) = 1 \<and>
         t_fn_result (callers s1 0) = Some ex_a \<and>
         inflight s1 ''k'' = None"
    by (simp only: k)
  from pc1 a b show ?thesis by blast
qed

lemma ex_reentry_observed:
  "\<not> Option.is_none (run ex_reentry_schedule ex_flight)"
  "t_pc (callers (the (run ex_reentry_schedule ex_flight)) 0) = RetP 0 ex_a"
  "t_pc (callers (the (run ex_reentry_schedule ex_flight)) 1) = L65 1"
  "inflight (the (run ex_reentry_schedule ex_flight)) ''k'' = Some 1"
  by code_simp+

theorem entry_after_return_counterexample:
  "\<not> Option.is_none (run ex_reentry_schedule ex_flight) \<and>
   t_pc (callers (the (run ex_reentry_schedule ex_flight)) 0) = RetP 0 ex_a \<and>
   t_key (callers (the (run ex_reentry_schedule ex_flight)) 0) = ''k'' \<and>
   inflight (the (run ex_reentry_schedule ex_flight)) ''k'' = Some 1 \<and>
   inflight (the (run ex_reentry_schedule ex_flight)) ''k'' \<noteq> None"
proof -
  have "t_key (callers (the (run ex_reentry_schedule ex_flight)) 0) = ''k''"
    by code_simp
  with ex_reentry_observed show ?thesis by simp
qed

end
